theory Spec2Isabelle
  imports Main "HOL-Library.Sublist"
begin

section \<open>Strings\<close>

text \<open>
  A Python \<^verbatim>\<open>str\<close> is a list of code points. The model covers the code points
  U+0000 to U+00FF, as 8-bit characters, and two more: U+0130 (the capital I with a
  dot above) and U+0307 (the combining dot above). U+0130 is the one code point that
  \<^verbatim>\<open>str.lower\<close> turns into two, \<open>i\<close> and U+0307; on the others of the model it
  works code point by code point. \<^verbatim>\<open>str.isspace\<close> holds for the code points 9 to 13,
  28 to 32, 133 and 160.
\<close>

datatype pychar = Ch char | U0130 | U0307

type_synonym pystr = "pychar list"

text \<open>A literal of the source.\<close>

definition py :: "string \<Rightarrow> pystr" where
  "py s = map Ch s"

definition dquote :: pychar where
  "dquote = Ch (CHR 0x22)"

definition squote :: pychar where
  "squote = Ch (CHR 0x27)"

definition isspace_char :: "char \<Rightarrow> bool" where
  "isspace_char c =
     (let n = (of_char c :: nat)
      in (9 \<le> n \<and> n \<le> 13) \<or> (28 \<le> n \<and> n \<le> 32) \<or> n = 133 \<or> n = 160)"

fun isspace :: "pychar \<Rightarrow> bool" where
  "isspace (Ch c) = isspace_char c"
| "isspace U0130 = False"
| "isspace U0307 = False"

definition is_upper :: "char \<Rightarrow> bool" where
  "is_upper c =
     (let n = (of_char c :: nat)
      in (65 \<le> n \<and> n \<le> 90) \<or> (192 \<le> n \<and> n \<le> 222 \<and> n \<noteq> 215))"

definition lower_char :: "char \<Rightarrow> char" where
  "lower_char c = (if is_upper c then char_of ((of_char c :: nat) + 32) else c)"

fun lower_cp :: "pychar \<Rightarrow> pystr" where
  "lower_cp (Ch c) = [Ch (lower_char c)]"
| "lower_cp U0130 = [Ch CHR ''i'', U0307]"
| "lower_cp U0307 = [U0307]"

definition lower :: "pystr \<Rightarrow> pystr" where
  "lower s = concat (map lower_cp s)"

text \<open>\<^verbatim>\<open>s.strip(chars)\<close>: drop the characters in question from both ends.\<close>

definition strip_by :: "(pychar \<Rightarrow> bool) \<Rightarrow> pystr \<Rightarrow> pystr" where
  "strip_by P s = rev (dropWhile P (rev (dropWhile P s)))"

definition strip :: "pystr \<Rightarrow> pystr" where
  "strip s = strip_by isspace s"

definition strip_char :: "pychar \<Rightarrow> pystr \<Rightarrow> pystr" where
  "strip_char c s = strip_by (\<lambda>x. x = c) s"

definition endswith :: "pystr \<Rightarrow> pystr \<Rightarrow> bool" where
  "endswith s suf = (length suf \<le> length s \<and> drop (length s - length suf) s = suf)"

text \<open>
  \<^verbatim>\<open>s.find(sub)\<close> and \<^verbatim>\<open>s.rfind(c)\<close>: the first (last) index of an occurrence;
  Python's sentinel -1 is \<open>None\<close>.
\<close>

fun find_sub :: "pystr \<Rightarrow> pystr \<Rightarrow> nat option" where
  "find_sub sub [] = (if sub = [] then Some 0 else None)"
| "find_sub sub (c # cs) =
     (if prefix sub (c # cs) then Some 0 else map_option Suc (find_sub sub cs))"

fun rfind_char :: "pychar \<Rightarrow> pystr \<Rightarrow> nat option" where
  "rfind_char c [] = None"
| "rfind_char c (x # xs) =
     (case rfind_char c xs of
        Some i \<Rightarrow> Some (Suc i)
      | None \<Rightarrow> if x = c then Some 0 else None)"

text \<open>The index as Python has it, for the comparisons of \<^verbatim>\<open>splitext\<close>.\<close>

definition py_index :: "nat option \<Rightarrow> int" where
  "py_index r = (case r of None \<Rightarrow> - 1 | Some i \<Rightarrow> int i)"

text \<open>\<^verbatim>\<open>str(i)\<close> for a natural number: its decimal digits.\<close>

fun str_nat :: "nat \<Rightarrow> pystr" where
  "str_nat n =
     (if n < 10 then [Ch (char_of (48 + n))]
      else str_nat (n div 10) @ [Ch (char_of (48 + n mod 10))])"

declare str_nat.simps [simp del]

section \<open>Paths\<close>

text \<open>
  \<^verbatim>\<open>os.path\<close> is taken to be \<^verbatim>\<open>posixpath\<close>: the separator is \<open>/\<close>.
  \<^verbatim>\<open>basename\<close> is \<^verbatim>\<open>p[p.rfind('/') + 1:]\<close>.
\<close>

definition sep :: pychar where
  "sep = Ch CHR ''/''"

definition basename :: "pystr \<Rightarrow> pystr" where
  "basename p = (case rfind_char sep p of None \<Rightarrow> p | Some i \<Rightarrow> drop (Suc i) p)"

text \<open>
  \<^verbatim>\<open>dirname\<close> is \<^verbatim>\<open>p[:p.rfind('/') + 1]\<close>, with the trailing separators removed
  unless it consists of separators only.
\<close>

definition dirname :: "pystr \<Rightarrow> pystr" where
  "dirname p =
     (let head = (case rfind_char sep p of None \<Rightarrow> [] | Some i \<Rightarrow> take (Suc i) p)
      in if head \<noteq> [] \<and> head \<noteq> replicate (length head) sep
         then rev (dropWhile (\<lambda>c. c = sep) (rev head))
         else head)"

text \<open>
  \<^verbatim>\<open>splitext\<close>: split at the last dot, if it comes after the last separator and
  some character between that separator and the dot is not a dot (leading dots belong
  to the stem).
\<close>

definition splitext :: "pystr \<Rightarrow> pystr \<times> pystr" where
  "splitext p =
     (let sepIndex = py_index (rfind_char sep p);
          dotIndex = py_index (rfind_char (Ch CHR ''.'') p)
      in if dotIndex > sepIndex \<and>
            list_ex (\<lambda>k. p ! k \<noteq> Ch CHR ''.'') [nat (sepIndex + 1) ..< nat dotIndex]
         then (take (nat dotIndex) p, drop (nat dotIndex) p)
         else (p, []))"

text \<open>
  \<^verbatim>\<open>join(a, b)\<close>: an absolute \<open>b\<close> replaces \<open>a\<close>; otherwise \<open>b\<close> is appended, after a
  separator unless \<open>a\<close> is empty or ends in one.
\<close>

definition join :: "pystr \<Rightarrow> pystr \<Rightarrow> pystr" where
  "join a b =
     (if b \<noteq> [] \<and> hd b = sep then b
      else if a = [] \<or> last a = sep then a @ b
      else a @ [sep] @ b)"

section \<open>Name Normalizer\<close>

definition normalize_name :: "pystr \<Rightarrow> bool \<Rightarrow> pystr" where
  "normalize_name name case_insensitive =
     (let n = strip_char squote (strip_char dquote (strip name));
          n = basename n
      in if case_insensitive then lower n else n)"

section \<open>Name Transformer\<close>

text \<open>
  \<^verbatim>\<open>re.search(r"_(jpg|jpeg|png|tif|tiff)\.rf\.", s)\<close>: the pattern matches at a
  position when, for one of the five alternatives, an underscore, the alternative and
  \<open>.rf.\<close> follow there; the search returns the leftmost such position.
\<close>

definition rf_exts :: "pystr list" where
  "rf_exts = map py [''jpg'', ''jpeg'', ''png'', ''tif'', ''tiff'']"

definition rf_match_here :: "pystr \<Rightarrow> bool" where
  "rf_match_here s = list_ex (\<lambda>ext. prefix (py ''_'' @ ext @ py ''.rf.'') s) rf_exts"

fun re_search_rf :: "pystr \<Rightarrow> nat option" where
  "re_search_rf [] = None"
| "re_search_rf (c # cs) =
     (if rf_match_here (c # cs) then Some 0 else map_option Suc (re_search_rf cs))"

definition csv_name_to_tif :: "pystr \<Rightarrow> pystr" where
  "csv_name_to_tif name =
     (let base = basename name;
          low = lower base
      in case re_search_rf low of
           Some m_start \<Rightarrow> take m_start base @ py ''.tif''
         | None \<Rightarrow>
             (case find_sub (py ''.jpg'') low of
                Some idx \<Rightarrow> take idx base @ py ''.tif''
              | None \<Rightarrow> fst (splitext base) @ py ''.tif''))"

text \<open>The two conditions under which the normalizer changes nothing at the ends.\<close>

definition strippable :: "pychar \<Rightarrow> bool" where
  "strippable c = (isspace c \<or> c = dquote \<or> c = squote)"

definition clean_ends :: "pystr \<Rightarrow> bool" where
  "clean_ends s = (s = [] \<or> (\<not> strippable (hd s) \<and> \<not> strippable (last s)))"

section \<open>Errors, messages and the world\<close>

text \<open>
  \<open>ValueError\<close> is the one exception the program raises itself; \<open>OSError\<close> stands
  for what \<^verbatim>\<open>open\<close> and \<^verbatim>\<open>os.makedirs\<close> raise.
\<close>

datatype error = ValueError | OSError

text \<open>The lines the program prints, by the place that prints them.\<close>

datatype msg =
    Reading pystr
  | NothingToDo
  | Indexing pystr
  | WillLook nat pystr
  | NotFound pystr
  | Copied pystr pystr
  | ErrorCopying pystr
  | Success nat pystr
  | NoMatch

datatype entry = File pystr | Dir

text \<open>The calls that walk the search tree or write to the file system.\<close>

datatype fsop = OpWalk pystr | OpMakedirs pystr | OpCopy pystr pystr

text \<open>
  The world a run changes: the entries of the file system by path (paths are compared
  as strings), the calls made so far, failed ones included, and the console.
\<close>

record world =
  store :: "pystr \<rightharpoonup> entry"
  ops :: "fsop list"
  console :: "msg list"

text \<open>
  A Python \<^verbatim>\<open>set\<close> of strings is a list without duplicates, iterated in the order of
  insertion; \<^verbatim>\<open>s.add(x)\<close> is \<open>set_add\<close>.
\<close>

definition set_add :: "pystr list \<Rightarrow> pystr \<Rightarrow> pystr list" where
  "set_add s x = (if x \<in> set s then s else s @ [x])"

section \<open>CSV Filename Extractor\<close>

text \<open>
  What reading the table gives: the sniffer's verdict on the header (with the source's
  default \<open>True\<close> when it fails) and the rows as \<^verbatim>\<open>csv.reader\<close> yields them in
  the sniffed dialect (a blank line is the empty row).
\<close>

record csv_table =
  has_header :: bool
  table_rows :: "pystr list list"

definition LIKELY_FILENAME_COLUMNS :: "pystr list" where
  "LIKELY_FILENAME_COLUMNS = [py ''filename'']"

text \<open>
  The choice of the column (lines 73 to 87). \<open>column\<close> is truthy when it is neither
  \<^verbatim>\<open>None\<close> nor empty; \<^verbatim>\<open>not use_col\<close> holds for \<^verbatim>\<open>None\<close> and for the empty
  string.
\<close>

definition select_column :: "pystr option \<Rightarrow> pystr list \<Rightarrow> error + pystr" where
  "select_column column fieldnames =
     (let use_col =
        (case column of
           Some c \<Rightarrow>
             if c \<noteq> [] \<and> c \<in> set fieldnames then Some c
             else (case find (\<lambda>cand. lower cand \<in> set LIKELY_FILENAME_COLUMNS) fieldnames of
                     Some cand \<Rightarrow> Some cand
                   | None \<Rightarrow> if fieldnames \<noteq> [] then Some (hd fieldnames) else None)
         | None \<Rightarrow>
             (case find (\<lambda>cand. lower cand \<in> set LIKELY_FILENAME_COLUMNS) fieldnames of
                Some cand \<Rightarrow> Some cand
              | None \<Rightarrow> if fieldnames \<noteq> [] then Some (hd fieldnames) else None))
      in case use_col of
           None \<Rightarrow> Inl ValueError
         | Some c \<Rightarrow> if c = [] then Inl ValueError else Inr c)"

text \<open>
  \<^verbatim>\<open>row.get(use_col, "") or ""\<close> on a row of \<^verbatim>\<open>csv.DictReader\<close>: the dictionary
  pairs the header's names with the row's values, a name beyond the row's length with
  \<^verbatim>\<open>None\<close>, and a later pair replaces an earlier one with the same name.
\<close>

definition dict_row_get :: "pystr list \<Rightarrow> pystr list \<Rightarrow> pystr \<Rightarrow> pystr" where
  "dict_row_get names row key =
     (case map_of (rev (zip names (map Some row @ replicate (length names - length row) None))) key of
        Some (Some v) \<Rightarrow> v
      | _ \<Rightarrow> [])"

definition add_raw :: "bool \<Rightarrow> pystr \<Rightarrow> pystr list \<Rightarrow> pystr list" where
  "add_raw case_insensitive raw targets =
     (if strip raw \<noteq> [] then set_add targets (normalize_name raw case_insensitive) else targets)"

text \<open>
  With a header, the first row gives the names (none when the table is empty) and
  \<^verbatim>\<open>DictReader\<close> skips the empty rows after it; the names are stripped for the choice
  of the column, not for the lookup in the row.
\<close>

definition load_filenames_from_csv ::
  "(pystr \<rightharpoonup> csv_table) \<Rightarrow> pystr \<Rightarrow> pystr option \<Rightarrow> bool \<Rightarrow> error + pystr list" where
  "load_filenames_from_csv tables csv_path column case_insensitive =
     (case tables csv_path of
        None \<Rightarrow> Inl OSError
      | Some t \<Rightarrow>
          if has_header t then
            (let names = (case table_rows t of [] \<Rightarrow> [] | r # _ \<Rightarrow> r);
                 fieldnames = map strip names
             in case select_column column fieldnames of
                  Inl e \<Rightarrow> Inl e
                | Inr use_col \<Rightarrow>
                    Inr (fold (\<lambda>row. add_raw case_insensitive (dict_row_get names row use_col))
                           (filter (\<lambda>row. row \<noteq> []) (tl (table_rows t))) []))
          else
            Inr (fold (\<lambda>row targets.
                         if row = [] then targets
                         else add_raw case_insensitive (hd row) targets)
                   (table_rows t) []))"

section \<open>Filesystem Indexer\<close>

text \<open>
  What \<^verbatim>\<open>os.walk\<close> finds under a directory: the names of its files and its
  subdirectories with what lies under them, or nothing when the directory cannot be
  listed. \<^verbatim>\<open>os.walk\<close> is called without \<^verbatim>\<open>onerror\<close>, so a directory whose listing
  fails, the top one included, yields nothing and raises nothing.
\<close>

datatype dirtree = Unreadable | Listing "pystr list" "(pystr \<times> dirtree) list"

fun os_walk :: "pystr \<Rightarrow> dirtree \<Rightarrow> (pystr \<times> pystr list \<times> pystr list) list" where
  "os_walk root Unreadable = []"
| "os_walk root (Listing files subs) =
     (root, map fst subs, files) #
     concat (map (\<lambda>sub. os_walk (join root (fst sub)) (snd sub)) subs)"

type_synonym file_index = "pystr \<rightharpoonup> pystr list"

text \<open>\<^verbatim>\<open>index.setdefault(key, []).append(os.path.join(root, file))\<close>\<close>

definition index_add :: "bool \<Rightarrow> pystr \<Rightarrow> pystr \<Rightarrow> file_index \<Rightarrow> file_index" where
  "index_add case_insensitive root file index =
     (let key = (if case_insensitive then lower file else file)
      in index(key \<mapsto> (case index key of None \<Rightarrow> [] | Some ps \<Rightarrow> ps) @ [join root file]))"

definition build_filename_index :: "dirtree \<Rightarrow> pystr \<Rightarrow> bool \<Rightarrow> file_index" where
  "build_filename_index tree search_path case_insensitive =
     fold (\<lambda>(root, dirs, files) index. fold (index_add case_insensitive root) files index)
       (os_walk search_path tree) Map.empty"

text \<open>Every file name in the tree is a path component: it holds no separator.\<close>

fun component_names :: "dirtree \<Rightarrow> bool" where
  "component_names Unreadable = True"
| "component_names (Listing files subs) =
     ((\<forall>f \<in> set files. sep \<notin> set f) \<and> (\<forall>sub \<in> set subs. component_names (snd sub)))"

section \<open>Resolver\<close>

definition index_get :: "file_index \<Rightarrow> pystr \<Rightarrow> pystr list" where
  "index_get index key = (case index key of None \<Rightarrow> [] | Some ps \<Rightarrow> ps)"

text \<open>
  Lines 142 to 146, with the keys looked up in the index, in order, beside the
  matches.
\<close>

definition resolve :: "file_index \<Rightarrow> pystr \<Rightarrow> pystr list \<times> pystr list" where
  "resolve index target =
     (let matches = index_get index target
      in if matches = [] \<and> endswith target (py ''.tif'')
         then (let alt = take (length target - 4) target @ py ''.tiff''
               in ([target, alt], index_get index alt))
         else ([target], matches))"

section \<open>Copy Engine\<close>

text \<open>
  The environment of a run: the tables behind the CSV paths, what lies under a
  directory when it is walked, \<^verbatim>\<open>os.path.relpath\<close> (it depends on the working
  directory), and the copies and directory creations that fail for reasons outside the
  model (permissions, a full disk).
\<close>

record env =
  tables :: "pystr \<rightharpoonup> csv_table"
  tree_at :: "pystr \<Rightarrow> dirtree"
  relpath :: "pystr \<Rightarrow> pystr \<Rightarrow> pystr"
  copy_fails :: "pystr \<Rightarrow> pystr \<Rightarrow> bool"
  mkdir_fails :: "pystr \<Rightarrow> bool"

definition exists :: "world \<Rightarrow> pystr \<Rightarrow> bool" where
  "exists w p = (p \<in> dom (store w))"

text \<open>
  How a call ends: it does not return (the loop over the candidates runs forever), it
  raises, or it returns a value; the last two leave a world behind.
\<close>

datatype 'a result =
    Diverges
  | Raises (the_error: error) (world_of: world)
  | Returns (the_value: 'a) (world_of: world)

text \<open>
  \<^verbatim>\<open>os.makedirs(path, exist_ok=True)\<close>: an existing directory is left alone, a file
  at the path is an error, otherwise the directory is created (the intermediate
  directories are not tracked) unless the environment refuses.
\<close>

definition ensure_dir :: "env \<Rightarrow> pystr \<Rightarrow> world \<Rightarrow> unit result" where
  "ensure_dir E path w =
     (let w' = w\<lparr>ops := ops w @ [OpMakedirs path]\<rparr>
      in case store w path of
           Some Dir \<Rightarrow> Returns () w'
         | Some (File c) \<Rightarrow> Raises OSError w'
         | None \<Rightarrow> if mkdir_fails E path then Raises OSError w'
                   else Returns () (w'\<lparr>store := (store w)(path \<mapsto> Dir)\<rparr>))"

text \<open>
  \<^verbatim>\<open>shutil.copy2(src, dst)\<close>: a directory as \<open>dst\<close> stands for the file of the source's
  name in it; the copy fails (an \<^verbatim>\<open>OSError\<close>, which the caller catches) when the
  source is not a file, when source and destination are the same file, when the
  destination is a directory, or when the environment says so. \<open>None\<close> is the failure.
\<close>

definition copy2 :: "env \<Rightarrow> pystr \<Rightarrow> pystr \<Rightarrow> (pystr \<rightharpoonup> entry) \<Rightarrow> (pystr \<rightharpoonup> entry) option" where
  "copy2 E src dst st =
     (let dst' = (if st dst = Some Dir then join dst (basename src) else dst)
      in case st src of
           Some (File c) \<Rightarrow>
             if src = dst' \<or> st dst' = Some Dir \<or> copy_fails E src dst' then None
             else Some (st(dst' \<mapsto> File c))
         | _ \<Rightarrow> None)"

record copy_cfg =
  destination_path :: pystr
  overwrite :: bool
  keep_dir_structure :: bool
  search_root_for_structure :: "pystr option"

definition candidate :: "pystr \<Rightarrow> pystr \<Rightarrow> pystr \<Rightarrow> nat \<Rightarrow> pystr" where
  "candidate dest_dir base ext i = join dest_dir (base @ py ''_'' @ str_nat i @ ext)"

text \<open>
  The loop over \<^verbatim>\<open>itertools.count(1)\<close> (lines 166 to 170), from \<open>i\<close> on: it returns
  the first candidate that does not exist, and does not return when every candidate
  exists.
\<close>

partial_function (option) first_free ::
  "(pystr \<Rightarrow> bool) \<Rightarrow> pystr \<Rightarrow> pystr \<Rightarrow> pystr \<Rightarrow> nat \<Rightarrow> pystr option" where
  "first_free ex dest_dir base ext i =
     (if \<not> ex (candidate dest_dir base ext i) then Some (candidate dest_dir base ext i)
      else first_free ex dest_dir base ext (i + 1))"

text \<open>Lines 153 to 161: the directory a source is copied into.\<close>

definition dest_dir_of :: "env \<Rightarrow> copy_cfg \<Rightarrow> pystr \<Rightarrow> pystr" where
  "dest_dir_of E cfg src =
     (case search_root_for_structure cfg of
        Some root \<Rightarrow>
          if keep_dir_structure cfg \<and> root \<noteq> []
          then join (destination_path cfg) (relpath E (dirname src) root)
          else destination_path cfg
      | None \<Rightarrow> destination_path cfg)"

text \<open>Lines 163 to 170: the path the copy is written to.\<close>

definition choose_dest :: "copy_cfg \<Rightarrow> world \<Rightarrow> pystr \<Rightarrow> pystr \<Rightarrow> pystr option" where
  "choose_dest cfg w dest_dir src =
     (let proposed = join dest_dir (basename src)
      in if \<not> overwrite cfg \<and> exists w proposed
         then (case splitext (basename src) of
                 (base, ext) \<Rightarrow> first_free (exists w) dest_dir base ext 1)
         else Some proposed)"

text \<open>The body of the loop over the matches (lines 153 to 177).\<close>

definition copy_one :: "env \<Rightarrow> copy_cfg \<Rightarrow> pystr \<Rightarrow> world \<Rightarrow> nat \<Rightarrow> nat result" where
  "copy_one E cfg src w copied =
     (let dest_dir = dest_dir_of E cfg src
      in case ensure_dir E dest_dir w of
           Diverges \<Rightarrow> Diverges
         | Raises e w1 \<Rightarrow> Raises e w1
         | Returns u w1 \<Rightarrow>
             (case choose_dest cfg w1 dest_dir src of
                None \<Rightarrow> Diverges
              | Some dest_path \<Rightarrow>
                  (case copy2 E src dest_path (store w1) of
                     Some st \<Rightarrow>
                       Returns (copied + 1)
                         (w1\<lparr>store := st,
                             ops := ops w1 @ [OpCopy src dest_path],
                             console := console w1 @ [Copied src dest_path]\<rparr>)
                   | None \<Rightarrow>
                       Returns copied
                         (w1\<lparr>ops := ops w1 @ [OpCopy src dest_path],
                             console := console w1 @ [ErrorCopying src]\<rparr>))))"

fun copy_matches :: "env \<Rightarrow> copy_cfg \<Rightarrow> pystr list \<Rightarrow> world \<Rightarrow> nat \<Rightarrow> nat result" where
  "copy_matches E cfg [] w copied = Returns copied w"
| "copy_matches E cfg (src # rest) w copied =
     (case copy_one E cfg src w copied of
        Returns copied' w' \<Rightarrow> copy_matches E cfg rest w' copied'
      | Raises e w' \<Rightarrow> Raises e w'
      | Diverges \<Rightarrow> Diverges)"

fun copy_targets ::
  "env \<Rightarrow> copy_cfg \<Rightarrow> file_index \<Rightarrow> pystr list \<Rightarrow> world \<Rightarrow> nat \<Rightarrow> nat result" where
  "copy_targets E cfg index [] w copied = Returns copied w"
| "copy_targets E cfg index (target # rest) w copied =
     (let matches = snd (resolve index target)
      in if matches = []
         then copy_targets E cfg index rest (w\<lparr>console := console w @ [NotFound target]\<rparr>) copied
         else (case copy_matches E cfg matches w copied of
                 Returns copied' w' \<Rightarrow> copy_targets E cfg index rest w' copied'
               | Raises e w' \<Rightarrow> Raises e w'
               | Diverges \<Rightarrow> Diverges))"

definition copy_files ::
  "env \<Rightarrow> pystr list \<Rightarrow> file_index \<Rightarrow> copy_cfg \<Rightarrow> world \<Rightarrow> nat result" where
  "copy_files E targets index cfg w =
     (case ensure_dir E (destination_path cfg) w of
        Diverges \<Rightarrow> Diverges
      | Raises e w1 \<Rightarrow> Raises e w1
      | Returns u w1 \<Rightarrow> copy_targets E cfg index targets w1 0)"

section \<open>The pipeline\<close>

definition tif_targets_of :: "bool \<Rightarrow> pystr list \<Rightarrow> pystr list" where
  "tif_targets_of case_insensitive raw_targets =
     fold (\<lambda>t acc. let tif_name = csv_name_to_tif t
                    in set_add acc (if case_insensitive then lower tif_name else tif_name))
       raw_targets []"

definition find_and_copy_from_csv ::
  "env \<Rightarrow> pystr \<Rightarrow> pystr \<Rightarrow> pystr \<Rightarrow> pystr option \<Rightarrow> bool \<Rightarrow> bool \<Rightarrow> bool \<Rightarrow> world
     \<Rightarrow> unit result" where
  "find_and_copy_from_csv E csv_path search_path destination column case_insensitive
     overwr keep w =
     (let w1 = w\<lparr>console := console w @ [Reading csv_path]\<rparr>
      in case load_filenames_from_csv (tables E) csv_path column case_insensitive of
           Inl e \<Rightarrow> Raises e w1
         | Inr raw_targets \<Rightarrow>
             if raw_targets = []
             then Returns () (w1\<lparr>console := console w1 @ [NothingToDo]\<rparr>)
             else
               (let tif_targets = tif_targets_of case_insensitive raw_targets;
                    w2 = w1\<lparr>console := console w1 @ [Indexing search_path]\<rparr>;
                    index = build_filename_index (tree_at E search_path) search_path
                              case_insensitive;
                    w3 = w2\<lparr>ops := ops w2 @ [OpWalk search_path],
                            console := console w2 @ [WillLook (length tif_targets) destination]\<rparr>;
                    cfg = \<lparr>destination_path = destination, overwrite = overwr,
                           keep_dir_structure = keep,
                           search_root_for_structure = Some search_path\<rparr>
                in case copy_files E tif_targets index cfg w3 of
                     Returns copied w4 \<Rightarrow>
                       Returns ()
                         (w4\<lparr>console := console w4 @
                              [if copied \<noteq> 0 then Success copied destination else NoMatch]\<rparr>)
                   | Raises e w4 \<Rightarrow> Raises e w4
                   | Diverges \<Rightarrow> Diverges))"

section \<open>Auxiliary notions for the statements\<close>

text \<open>The tree without its unreadable subdirectories, at every depth.\<close>

fun prune :: "dirtree \<Rightarrow> dirtree" where
  "prune Unreadable = Unreadable"
| "prune (Listing files subs) =
     Listing files
       (map (\<lambda>sub. (fst sub, prune (snd sub))) (filter (\<lambda>sub. snd sub \<noteq> Unreadable) subs))"

text \<open>The number a string of decimal digits stands for.\<close>

definition digit_of :: "pychar \<Rightarrow> nat" where
  "digit_of c = (case c of Ch c \<Rightarrow> of_char c - 48 | _ \<Rightarrow> 0)"

definition nat_of_digits :: "pystr \<Rightarrow> nat" where
  "nat_of_digits s = foldl (\<lambda>a c. 10 * a + digit_of c) 0 s"

text \<open>A string that lowercasing leaves as it is, code point by code point.\<close>

definition lowered :: "pystr \<Rightarrow> bool" where
  "lowered s = (\<forall>c \<in> set s. lower_cp c = [c])"

text \<open>The configured column is usable: it is given, not empty, and among the names.\<close>

definition column_given :: "pystr option \<Rightarrow> pystr list \<Rightarrow> bool" where
  "column_given column fieldnames =
     (case column of None \<Rightarrow> False | Some c \<Rightarrow> c \<noteq> [] \<and> c \<in> set fieldnames)"

text \<open>The indexer's own normalization, and what it keeps true of the index.\<close>

definition fold_case :: "bool \<Rightarrow> pystr \<Rightarrow> pystr" where
  "fold_case ci s = (if ci then lower s else s)"

definition index_inv :: "bool \<Rightarrow> file_index \<Rightarrow> bool" where
  "index_inv ci index = (\<forall>k ps p. index k = Some ps \<longrightarrow> p \<in> set ps \<longrightarrow> fold_case ci (basename p) = k)"

text \<open>What the indexer reads of a walk: the directories and their files.\<close>

definition walk_files :: "(pystr \<times> pystr list \<times> pystr list) list \<Rightarrow> (pystr \<times> pystr list) list" where
  "walk_files triples = map (\<lambda>(root, dirs, files). (root, files)) triples"

text \<open>A name that is \<open>filename\<close> but for its case.\<close>

definition likely :: "pystr \<Rightarrow> bool" where
  "likely h = (lower h = py ''filename'')"

section \<open>Facts about strings and paths\<close>

lemma py_Nil [simp]: "py [] = []"
  by (simp add: py_def)

lemma py_Cons [simp]: "py (c # cs) = Ch c # py cs"
  by (simp add: py_def)

lemma rfind_char_None_iff: "rfind_char c s = None \<longleftrightarrow> c \<notin> set s"
  by (induction s) (auto split: option.splits)

lemma rfind_char_Some:
  "rfind_char c s = Some i \<Longrightarrow> i < length s \<and> s ! i = c \<and> c \<notin> set (drop (Suc i) s)"
proof (induction s arbitrary: i)
  case Nil
  then show ?case by simp
next
  case (Cons x xs)
  show ?case
  proof (cases "rfind_char c xs")
    case None
    with Cons.prems have "x = c" "i = 0" by (auto split: if_splits)
    moreover from None have "c \<notin> set xs" by (simp add: rfind_char_None_iff)
    ultimately show ?thesis by simp
  next
    case (Some j)
    with Cons.prems have "i = Suc j" by simp
    with Cons.IH [OF Some] show ?thesis by simp
  qed
qed

lemma basename_no_sep: "sep \<notin> set (basename p)"
  by (auto simp: basename_def rfind_char_None_iff dest: rfind_char_Some split: option.splits)

lemma basename_id: "sep \<notin> set p \<Longrightarrow> basename p = p"
  by (simp add: basename_def rfind_char_None_iff [symmetric])

lemma is_upper_lower_char: "\<not> is_upper (lower_char c)"
proof (cases "is_upper c")
  case True
  then have "(of_char c :: nat) + 32 < 256"
    by (auto simp: is_upper_def Let_def)
  then have "(of_char (char_of ((of_char c :: nat) + 32)) :: nat) = of_char c + 32"
    by simp
  with True show ?thesis
    by (auto simp: lower_char_def is_upper_def Let_def)
next
  case False
  then show ?thesis by (simp add: lower_char_def)
qed

lemma lower_char_idem: "lower_char (lower_char c) = lower_char c"
  using is_upper_lower_char [of c] by (simp add: lower_char_def [of "lower_char c"])

lemma lower_char_slash: "lower_char c = CHR ''/'' \<longleftrightarrow> c = CHR ''/''"
proof
  assume eq: "lower_char c = CHR ''/''"
  show "c = CHR ''/''"
  proof (cases "is_upper c")
    case True
    then have lt: "(of_char c :: nat) + 32 < 256" and ge: "65 \<le> (of_char c :: nat)"
      by (auto simp: is_upper_def Let_def)
    from True eq have "(of_char (char_of ((of_char c :: nat) + 32)) :: nat) = of_char CHR ''/''"
      by (simp add: lower_char_def)
    with lt have "(of_char c :: nat) + 32 = 47" by simp
    with ge show ?thesis by simp
  next
    case False
    with eq show ?thesis by (simp add: lower_char_def)
  qed
next
  assume "c = CHR ''/''"
  then show "lower_char c = CHR ''/''"
    by (simp add: lower_char_def is_upper_def)
qed

lemma lower_Nil: "lower [] = []"
  by (simp add: lower_def)

lemma lower_Cons: "lower (c # s) = lower_cp c @ lower s"
  by (simp add: lower_def)

lemma lower_append: "lower (s @ t) = lower s @ lower t"
  by (simp add: lower_def)

lemma lower_py: "lower (py s) = py (map lower_char s)"
  by (induction s) (simp_all add: lower_def py_def)

lemma lower_char_i: "lower_char CHR ''i'' = CHR ''i''"
  by (simp add: lower_char_def is_upper_def)

lemma lower_cp_lowered: "d \<in> set (lower_cp c) \<Longrightarrow> lower_cp d = [d]"
proof (cases c)
  case (Ch x)
  assume "d \<in> set (lower_cp c)"
  with Ch have "d = Ch (lower_char x)" by simp
  then show ?thesis by (simp add: lower_char_idem)
next
  case U0130
  assume "d \<in> set (lower_cp c)"
  with U0130 have "d = Ch CHR ''i'' \<or> d = U0307" by simp
  then show ?thesis by (auto simp: lower_char_i)
next
  case U0307
  assume "d \<in> set (lower_cp c)"
  with U0307 show ?thesis by simp
qed

lemma lowered_lower: "lowered (lower s)"
  by (auto simp: lowered_def lower_def dest: lower_cp_lowered)

lemma lower_lowered: "lowered s \<Longrightarrow> lower s = s"
  by (induction s) (simp_all add: lowered_def lower_Nil lower_Cons)

lemma lowered_subset: "lowered s \<Longrightarrow> set t \<subseteq> set s \<Longrightarrow> lowered t"
  by (auto simp: lowered_def)

lemma lower_idem: "lower (lower s) = lower s"
  by (rule lower_lowered) (rule lowered_lower)

lemma sep_in_lower_cp: "sep \<in> set (lower_cp c) \<longleftrightarrow> c = sep"
proof (cases c)
  case (Ch x)
  have "CHR ''/'' = lower_char x \<longleftrightarrow> x = CHR ''/''"
    using lower_char_slash [of x] by auto
  with Ch show ?thesis by (auto simp: sep_def)
qed (simp_all add: sep_def)

lemma sep_in_lower: "sep \<in> set (lower s) \<longleftrightarrow> sep \<in> set s"
  by (induction s) (auto simp: lower_Nil lower_Cons sep_in_lower_cp)

lemma length_lower_ge: "length s \<le> length (lower s)"
proof (induction s)
  case Nil
  then show ?case by (simp add: lower_Nil)
next
  case (Cons c s)
  have "1 \<le> length (lower_cp c)" by (cases c) simp_all
  with Cons show ?case by (simp add: lower_Cons)
qed

lemma length_lower: "U0130 \<notin> set s \<Longrightarrow> length (lower s) = length s"
proof (induction s)
  case Nil
  then show ?case by (simp add: lower_Nil)
next
  case (Cons c s)
  then have "length (lower_cp c) = 1" by (cases c) simp_all
  with Cons show ?case by (simp add: lower_Cons)
qed

lemma strip_by_id:
  assumes "s \<noteq> [] \<longrightarrow> \<not> P (hd s) \<and> \<not> P (last s)"
  shows "strip_by P s = s"
proof (cases s)
  case Nil
  then show ?thesis by (simp add: strip_by_def)
next
  case (Cons x xs)
  with assms have h: "\<not> P (hd s)" and l: "\<not> P (last s)" by auto
  from h Cons have "dropWhile P s = s" by simp
  moreover have "dropWhile P (rev s) = rev s"
  proof (cases "rev s")
    case Nil
    then show ?thesis by simp
  next
    case (Cons y ys)
    then have "y = last s" by (metis hd_rev list.sel(1))
    with l have "\<not> P y" by simp
    then show ?thesis unfolding Cons by simp
  qed
  ultimately show ?thesis by (simp add: strip_by_def)
qed

section \<open>Name Normalizer: idempotence\<close>

lemma normalize_name_clean:
  assumes "clean_ends s" and "sep \<notin> set s"
  shows "normalize_name s ci = (if ci then lower s else s)"
proof -
  have "strip s = s"
    unfolding strip_def using assms(1)
    by (intro strip_by_id) (auto simp: clean_ends_def strippable_def)
  moreover have "strip_char dquote s = s"
    unfolding strip_char_def using assms(1)
    by (intro strip_by_id) (auto simp: clean_ends_def strippable_def)
  moreover have "strip_char squote s = s"
    unfolding strip_char_def using assms(1)
    by (intro strip_by_id) (auto simp: clean_ends_def strippable_def)
  ultimately show ?thesis
    using assms(2) by (simp add: normalize_name_def basename_id)
qed

lemma normalize_name_no_sep: "sep \<notin> set (normalize_name n ci)"
  by (simp add: normalize_name_def Let_def sep_in_lower basename_no_sep)

lemma normalize_name_lower: "lower (normalize_name n True) = normalize_name n True"
  by (simp add: normalize_name_def Let_def lower_idem)

lemma length_dropWhile_less: "s \<noteq> [] \<Longrightarrow> P (hd s) \<Longrightarrow> length (dropWhile P s) < length s"
proof -
  assume "s \<noteq> []" "P (hd s)"
  then obtain x xs where s: "s = x # xs" and "P x" by (cases s) auto
  have "length (dropWhile P xs) \<le> length xs" by (rule length_dropWhile_le)
  with s \<open>P x\<close> show ?thesis by simp
qed

lemma length_strip_by_le: "length (strip_by P s) \<le> length s"
proof -
  have "length (dropWhile P (rev (dropWhile P s))) \<le> length (rev (dropWhile P s))"
    by (rule length_dropWhile_le)
  also have "\<dots> \<le> length s" by (simp add: length_dropWhile_le)
  finally show ?thesis by (simp add: strip_by_def)
qed

lemma length_strip_by_less:
  assumes "s \<noteq> []" and "P (hd s) \<or> P (last s)"
  shows "length (strip_by P s) < length s"
proof (cases "P (hd s)")
  case True
  have "length (dropWhile P (rev (dropWhile P s))) \<le> length (rev (dropWhile P s))"
    by (rule length_dropWhile_le)
  also have "\<dots> < length s"
    using length_dropWhile_less [of s P] assms(1) True by simp
  finally show ?thesis by (simp add: strip_by_def)
next
  case False
  with assms have l: "P (last s)" by simp
  from False assms(1) have d: "dropWhile P s = s" by (cases s) auto
  from assms(1) l have "length (dropWhile P (rev s)) < length (rev s)"
    using length_dropWhile_less [of "rev s" P] by (simp add: hd_rev)
  with d show ?thesis by (simp add: strip_by_def)
qed

lemma length_basename_le: "length (basename p) \<le> length p"
  by (simp add: basename_def split: option.splits)

lemma set_strip_by: "set (strip_by P s) \<subseteq> set s"
proof -
  have "set (dropWhile P (rev (dropWhile P s))) \<subseteq> set (rev (dropWhile P s))"
    by (auto dest: set_dropWhileD)
  also have "\<dots> \<subseteq> set s" by (auto dest: set_dropWhileD)
  finally show ?thesis by (simp add: strip_by_def)
qed

lemma set_basename: "set (basename p) \<subseteq> set p"
  by (auto simp: basename_def split: option.splits dest: in_set_dropD)

lemma set_stripped: "set (strip_char squote (strip_char dquote (strip s))) \<subseteq> set s"
  unfolding strip_def strip_char_def
  using set_strip_by [of "\<lambda>x. x = squote" "strip_by (\<lambda>x. x = dquote) (strip_by isspace s)"]
    set_strip_by [of "\<lambda>x. x = dquote" "strip_by isspace s"] set_strip_by [of isspace s]
  by blast

lemma length_normalize_name_le:
  assumes "ci \<longrightarrow> lowered s"
  shows "length (normalize_name s ci) \<le> length (strip_char squote (strip_char dquote (strip s)))"
proof -
  let ?t = "strip_char squote (strip_char dquote (strip s))"
  have le: "length (basename ?t) \<le> length ?t" by (rule length_basename_le)
  show ?thesis
  proof (cases ci)
    case True
    with assms have "lowered s" by simp
    moreover have "set (basename ?t) \<subseteq> set s"
      using set_basename [of ?t] set_stripped [of s] by blast
    ultimately have "lowered (basename ?t)" by (rule lowered_subset)
    then have "lower (basename ?t) = basename ?t" by (rule lower_lowered)
    with True le show ?thesis by (simp add: normalize_name_def)
  next
    case False
    with le show ?thesis by (simp add: normalize_name_def)
  qed
qed

lemma normalize_name_shorter:
  assumes "\<not> clean_ends s" and low: "ci \<longrightarrow> lowered s"
  shows "length (normalize_name s ci) < length s"
proof -
  from assms have ne: "s \<noteq> []" and ends: "strippable (hd s) \<or> strippable (last s)"
    by (auto simp: clean_ends_def)
  let ?a = "strip s"
  let ?b = "strip_char dquote ?a"
  let ?c = "strip_char squote ?b"
  have a: "length ?a \<le> length s" unfolding strip_def by (rule length_strip_by_le)
  have b: "length ?b \<le> length ?a" unfolding strip_char_def by (rule length_strip_by_le)
  have c: "length ?c \<le> length ?b" unfolding strip_char_def by (rule length_strip_by_le)
  have "length ?c < length s"
  proof (cases "isspace (hd s) \<or> isspace (last s)")
    case True
    with ne have "length ?a < length s" unfolding strip_def by (rule length_strip_by_less)
    with b c show ?thesis by simp
  next
    case nsp: False
    then have as: "?a = s" unfolding strip_def by (intro strip_by_id) simp
    show ?thesis
    proof (cases "hd s = dquote \<or> last s = dquote")
      case True
      with ne have "length (strip_char dquote s) < length s"
        unfolding strip_char_def by (intro length_strip_by_less) auto
      with c as show ?thesis by simp
    next
      case ndq: False
      then have bs: "strip_char dquote s = s"
        unfolding strip_char_def by (intro strip_by_id) simp
      from ends nsp ndq have "hd s = squote \<or> last s = squote"
        by (auto simp: strippable_def)
      with ne have "length (strip_char squote s) < length s"
        unfolding strip_char_def by (intro length_strip_by_less) auto
      with as bs show ?thesis by simp
    qed
  qed
  with length_normalize_name_le [OF low] show ?thesis by simp
qed

lemma normalize_name_lowered: "lowered (normalize_name n True)"
  by (simp add: normalize_name_def Let_def lowered_lower)

text \<open>
  C5, as the source has it. The normalizer strips white space first, then double
  quotes, then single quotes, each once, and takes the last path segment after that, so
  its result can begin or end with a character that a second pass strips: the name
  \<open>" a"\<close> (double quote, blank, \<open>a\<close>, double quote) normalizes to blank, \<open>a\<close>, which
  normalizes to \<open>a\<close>.
\<close>

theorem normalize_name_not_idempotent:
  "normalize_name (normalize_name ([dquote] @ py '' a'' @ [dquote]) True) True
     \<noteq> normalize_name ([dquote] @ py '' a'' @ [dquote]) True"
  by code_simp

text \<open>
  C5, amended: normalizing a normalized name gives it back exactly when the normalized
  name neither begins nor ends with a white space or quote character, with and without
  case folding; otherwise the second pass makes it shorter.
\<close>

theorem normalize_name_idempotent:
  "normalize_name (normalize_name n ci) ci = normalize_name n ci
     \<longleftrightarrow> clean_ends (normalize_name n ci)"
proof
  assume "clean_ends (normalize_name n ci)"
  then show "normalize_name (normalize_name n ci) ci = normalize_name n ci"
    using normalize_name_lower [of n]
    by (cases ci) (simp_all add: normalize_name_clean normalize_name_no_sep)
next
  assume eq: "normalize_name (normalize_name n ci) ci = normalize_name n ci"
  show "clean_ends (normalize_name n ci)"
  proof (rule ccontr)
    assume "\<not> clean_ends (normalize_name n ci)"
    moreover have "ci \<longrightarrow> lowered (normalize_name n ci)"
      by (simp add: normalize_name_lowered)
    ultimately
    have "length (normalize_name (normalize_name n ci) ci) < length (normalize_name n ci)"
      by (rule normalize_name_shorter)
    with eq show False by simp
  qed
qed

theorem normalize_name_idempotent_witness:
  "clean_ends (normalize_name (py ''  Dir/Photo.JPG '') True) \<and>
   normalize_name (normalize_name (py ''  Dir/Photo.JPG '') True) True
     = normalize_name (py ''  Dir/Photo.JPG '') True \<and>
   normalize_name (py ''  Dir/Photo.JPG '') True = py ''photo.jpg''"
proof -
  have h: "clean_ends (normalize_name (py ''  Dir/Photo.JPG '') True)" by code_simp
  have v: "normalize_name (py ''  Dir/Photo.JPG '') True = py ''photo.jpg''" by code_simp
  from h normalize_name_idempotent [of "py ''  Dir/Photo.JPG ''" True]
  have "normalize_name (normalize_name (py ''  Dir/Photo.JPG '') True) True
     = normalize_name (py ''  Dir/Photo.JPG '') True" by blast
  with h v show ?thesis by blast
qed

section \<open>Name Transformer: the three rules\<close>

lemma set_rf_exts: "set rf_exts = {py ''jpg'', py ''jpeg'', py ''png'', py ''tif'', py ''tiff''}"
  by (simp add: rf_exts_def)

lemma rf_match_here_iff:
  "rf_match_here s \<longleftrightarrow>
   (\<exists>ext rest. ext \<in> {py ''jpg'', py ''jpeg'', py ''png'', py ''tif'', py ''tiff''} \<and> s = py ''_'' @ ext @ py ''.rf.'' @ rest)"
proof -
  have "rf_match_here s \<longleftrightarrow> (\<exists>ext \<in> set rf_exts. \<exists>rest. s = (py ''_'' @ ext @ py ''.rf.'') @ rest)"
    by (simp only: rf_match_here_def list_ex_iff prefix_def)
  also have "\<dots> \<longleftrightarrow> (\<exists>ext rest. ext \<in> set rf_exts \<and> s = py ''_'' @ ext @ py ''.rf.'' @ rest)"
    unfolding append_assoc by blast
  finally show ?thesis by (simp only: set_rf_exts)
qed

lemma rf_match_here_Nil: "\<not> rf_match_here []"
  by (simp add: rf_match_here_def rf_exts_def py_def)

lemma re_search_rf_Some:
  "re_search_rf s = Some i \<Longrightarrow>
   i < length s \<and> rf_match_here (drop i s) \<and> (\<forall>j<i. \<not> rf_match_here (drop j s))"
proof (induction s arbitrary: i)
  case Nil
  then show ?case by simp
next
  case (Cons c cs)
  show ?case
  proof (cases "rf_match_here (c # cs)")
    case True
    with Cons.prems show ?thesis by simp
  next
    case False
    with Cons.prems obtain k where k: "re_search_rf cs = Some k" and i: "i = Suc k"
      by auto
    from Cons.IH [OF k] have "k < length cs" "rf_match_here (drop k cs)"
      and least: "\<forall>j<k. \<not> rf_match_here (drop j cs)" by auto
    have "\<forall>j<i. \<not> rf_match_here (drop j (c # cs))"
    proof (intro allI impI)
      fix j assume "j < i"
      show "\<not> rf_match_here (drop j (c # cs))"
      proof (cases j)
        case 0
        with False show ?thesis by simp
      next
        case (Suc j')
        with \<open>j < i\<close> i least show ?thesis by simp
      qed
    qed
    with \<open>k < length cs\<close> \<open>rf_match_here (drop k cs)\<close> i show ?thesis by simp
  qed
qed

lemma re_search_rf_None: "re_search_rf s = None \<Longrightarrow> \<not> rf_match_here (drop j s)"
proof (induction s arbitrary: j)
  case Nil
  then show ?case by (simp add: rf_match_here_Nil)
next
  case (Cons c cs)
  then have here: "\<not> rf_match_here (c # cs)" and rest: "re_search_rf cs = None"
    by (auto split: if_splits)
  show ?case
  proof (cases j)
    case 0
    with here show ?thesis by simp
  next
    case (Suc j')
    with Cons.IH [OF rest] show ?thesis by simp
  qed
qed

lemma re_search_rf_first:
  assumes "rf_match_here (drop i s)" and "\<forall>j<i. \<not> rf_match_here (drop j s)"
  shows "re_search_rf s = Some i"
proof (cases "re_search_rf s")
  case None
  with assms(1) show ?thesis by (auto dest: re_search_rf_None)
next
  case (Some k)
  from re_search_rf_Some [OF Some] have "rf_match_here (drop k s)"
    and "\<forall>j<k. \<not> rf_match_here (drop j s)" by auto
  with assms have "\<not> k < i" "\<not> i < k" by auto
  with Some show ?thesis by simp
qed

lemma find_sub_Some:
  "find_sub sub s = Some i \<Longrightarrow>
   i \<le> length s \<and> prefix sub (drop i s) \<and> (\<forall>j<i. \<not> prefix sub (drop j s))"
proof (induction s arbitrary: i)
  case Nil
  then show ?case by (auto split: if_splits)
next
  case (Cons c cs)
  show ?case
  proof (cases "prefix sub (c # cs)")
    case True
    with Cons.prems show ?thesis by simp
  next
    case False
    with Cons.prems obtain k where k: "find_sub sub cs = Some k" and i: "i = Suc k"
      by auto
    from Cons.IH [OF k] have "k \<le> length cs" "prefix sub (drop k cs)"
      and least: "\<forall>j<k. \<not> prefix sub (drop j cs)" by auto
    have "\<forall>j<i. \<not> prefix sub (drop j (c # cs))"
    proof (intro allI impI)
      fix j assume "j < i"
      show "\<not> prefix sub (drop j (c # cs))"
      proof (cases j)
        case 0
        with False show ?thesis by simp
      next
        case (Suc j')
        with \<open>j < i\<close> i least show ?thesis by simp
      qed
    qed
    with \<open>k \<le> length cs\<close> \<open>prefix sub (drop k cs)\<close> i show ?thesis by simp
  qed
qed

lemma find_sub_None: "find_sub sub s = None \<Longrightarrow> \<not> prefix sub (drop j s)"
proof (induction s arbitrary: j)
  case Nil
  then show ?case by (auto split: if_splits)
next
  case (Cons c cs)
  then have here: "\<not> prefix sub (c # cs)" and rest: "find_sub sub cs = None"
    by (auto split: if_splits)
  show ?case
  proof (cases j)
    case 0
    with here show ?thesis by simp
  next
    case (Suc j')
    with Cons.IH [OF rest] show ?thesis by simp
  qed
qed

lemma find_sub_first:
  assumes "prefix sub (drop i s)" and "\<forall>j<i. \<not> prefix sub (drop j s)"
  shows "find_sub sub s = Some i"
proof (cases "find_sub sub s")
  case None
  with assms(1) show ?thesis by (auto dest: find_sub_None)
next
  case (Some k)
  from find_sub_Some [OF Some] have "prefix sub (drop k s)"
    and "\<forall>j<k. \<not> prefix sub (drop j s)" by auto
  with assms have "\<not> k < i" "\<not> i < k" by auto
  with Some show ?thesis by simp
qed

lemma rf_segment_least:
  assumes "re_search_rf s = Some i"
    and "ext \<in> {py ''jpg'', py ''jpeg'', py ''png'', py ''tif'', py ''tiff''}"
    and "s = pre @ py ''_'' @ ext @ py ''.rf.'' @ rest"
  shows "i \<le> length pre"
proof -
  from assms(2,3) have "rf_match_here (drop (length pre) s)"
    unfolding rf_match_here_iff by auto
  with re_search_rf_Some [OF assms(1)] show ?thesis
    by (meson not_le_imp_less)
qed

lemma no_rf_segment:
  assumes "re_search_rf s = None"
    and "ext \<in> {py ''jpg'', py ''jpeg'', py ''png'', py ''tif'', py ''tiff''}"
  shows "s \<noteq> pre @ py ''_'' @ ext @ py ''.rf.'' @ rest"
proof
  assume "s = pre @ py ''_'' @ ext @ py ''.rf.'' @ rest"
  with assms(2) have "rf_match_here (drop (length pre) s)"
    unfolding rf_match_here_iff by auto
  with re_search_rf_None [OF assms(1)] show False by blast
qed

lemma find_sub_least:
  assumes "find_sub sub s = Some i" and "s = pre @ sub @ rest"
  shows "i \<le> length pre"
proof -
  from assms(2) have "prefix sub (drop (length pre) s)" by simp
  with find_sub_Some [OF assms(1)] show ?thesis
    by (meson not_le_imp_less)
qed

text \<open>
  Where the first rule is right: the last path segment of the name is a stem without
  U+0130 followed by a segment that is \<open>_ext.rf.\<close> in lower case, and no such segment
  begins earlier. Then the result is the stem followed by \<open>.tif\<close>, whatever else the name
  holds.
\<close>

lemma export_suffix_stem:
  assumes base: "basename name = stem @ tail"
    and stem: "U0130 \<notin> set stem"
    and seg: "lower tail = py ''_'' @ ext @ py ''.rf.'' @ rest"
    and ext: "ext \<in> {py ''jpg'', py ''jpeg'', py ''png'', py ''tif'', py ''tiff''}"
    and leftmost: "\<And>pre' ext' rest'.
           ext' \<in> {py ''jpg'', py ''jpeg'', py ''png'', py ''tif'', py ''tiff''} \<Longrightarrow>
           lower (basename name) = pre' @ py ''_'' @ ext' @ py ''.rf.'' @ rest' \<Longrightarrow>
           length stem \<le> length pre'"
  shows "csv_name_to_tif name = stem @ py ''.tif''"
proof -
  let ?low = "lower (basename name)"
  from stem have len: "length (lower stem) = length stem" by (rule length_lower)
  from base seg have low: "?low = lower stem @ py ''_'' @ ext @ py ''.rf.'' @ rest"
    by (simp add: lower_append)
  with ext len have here: "rf_match_here (drop (length stem) ?low)"
    unfolding rf_match_here_iff by auto
  have "\<forall>j<length stem. \<not> rf_match_here (drop j ?low)"
  proof (intro allI impI notI)
    fix j assume j: "j < length stem" and m: "rf_match_here (drop j ?low)"
    from m obtain ext' rest'
      where e: "ext' \<in> {py ''jpg'', py ''jpeg'', py ''png'', py ''tif'', py ''tiff''}"
        and d: "drop j ?low = py ''_'' @ ext' @ py ''.rf.'' @ rest'"
      unfolding rf_match_here_iff by blast
    have "?low = take j ?low @ drop j ?low" by simp
    with d have "?low = take j ?low @ py ''_'' @ ext' @ py ''.rf.'' @ rest'" by simp
    from leftmost [OF e this] have "length stem \<le> length (take j ?low)" .
    with j show False by simp
  qed
  with here have "re_search_rf ?low = Some (length stem)" by (rule re_search_rf_first)
  with base show ?thesis by (simp add: csv_name_to_tif_def)
qed

lemma export_suffix_stem_example:
  "csv_name_to_tif (py ''a.jpg_png.rf.x.jpg'') = py ''a.jpg.tif''"
proof -
  have s: "re_search_rf (lower (basename (py ''a.jpg_png.rf.x.jpg''))) = Some 5" by code_simp
  have base: "basename (py ''a.jpg_png.rf.x.jpg'') = py ''a.jpg'' @ py ''_png.rf.x.jpg''"
    by code_simp
  have seg: "lower (py ''_png.rf.x.jpg'') = py ''_'' @ py ''png'' @ py ''.rf.'' @ py ''x.jpg''"
    by code_simp
  have "csv_name_to_tif (py ''a.jpg_png.rf.x.jpg'') = py ''a.jpg'' @ py ''.tif''"
  proof (rule export_suffix_stem [OF base _ seg])
    show "U0130 \<notin> set (py ''a.jpg'')" by simp
  next
    show "py ''png'' \<in> {py ''jpg'', py ''jpeg'', py ''png'', py ''tif'', py ''tiff''}" by simp
  next
    fix pre' ext' rest'
    assume "ext' \<in> {py ''jpg'', py ''jpeg'', py ''png'', py ''tif'', py ''tiff''}"
      and "lower (basename (py ''a.jpg_png.rf.x.jpg'')) = pre' @ py ''_'' @ ext' @ py ''.rf.'' @ rest'"
    with s have "5 \<le> length pre'" by (rule rf_segment_least)
    then show "length (py ''a.jpg'') \<le> length pre'" by simp
  qed
  then show ?thesis by simp
qed

text \<open>
  C1, where the source goes wrong. The position of the segment is found in the
  lowercased name and used to cut the name itself; U+0130 before the segment makes the
  lowercased name longer by one, so the cut comes one code point late: for
  \<open>X_jpg.rf.abc.jpg\<close> with U+0130 as \<open>X\<close> the first rule is taken and the result is
  \<open>X_.tif\<close>, not \<open>X.tif\<close>.
\<close>

theorem export_suffix_stem_miscut:
  "re_search_rf (lower (basename ([U0130] @ py ''_jpg.rf.abc.jpg''))) = Some 2 \<and>
   csv_name_to_tif ([U0130] @ py ''_jpg.rf.abc.jpg'') = [U0130] @ py ''_.tif'' \<and>
   csv_name_to_tif ([U0130] @ py ''_jpg.rf.abc.jpg'') \<noteq> [U0130] @ py ''.tif''"
  by code_simp

text \<open>
  Where the second rule is right: no segment \<open>_ext.rf.\<close> in the lowercased last path
  segment, which is a stem without U+0130 followed by \<open>.jpg\<close> in lower case, with no
  \<open>.jpg\<close> earlier. Then the result is the stem followed by \<open>.tif\<close>.
\<close>

lemma first_jpg_stem:
  assumes no_seg: "\<And>pre' ext' rest'.
           ext' \<in> {py ''jpg'', py ''jpeg'', py ''png'', py ''tif'', py ''tiff''} \<Longrightarrow>
           lower (basename name) \<noteq> pre' @ py ''_'' @ ext' @ py ''.rf.'' @ rest'"
    and base: "basename name = stem @ tail"
    and stem: "U0130 \<notin> set stem"
    and occ: "lower tail = py ''.jpg'' @ rest"
    and first: "\<And>pre' rest'.
           lower (basename name) = pre' @ py ''.jpg'' @ rest' \<Longrightarrow> length stem \<le> length pre'"
  shows "csv_name_to_tif name = stem @ py ''.tif''"
proof -
  let ?low = "lower (basename name)"
  have none: "re_search_rf ?low = None"
  proof (cases "re_search_rf ?low")
    case None
    then show ?thesis .
  next
    case (Some i)
    from re_search_rf_Some [OF Some] obtain ext' rest'
      where e: "ext' \<in> {py ''jpg'', py ''jpeg'', py ''png'', py ''tif'', py ''tiff''}"
        and d: "drop i ?low = py ''_'' @ ext' @ py ''.rf.'' @ rest'"
      unfolding rf_match_here_iff by blast
    have "?low = take i ?low @ drop i ?low" by simp
    with d have "?low = take i ?low @ py ''_'' @ ext' @ py ''.rf.'' @ rest'" by simp
    with no_seg [OF e] show ?thesis by blast
  qed
  from stem have len: "length (lower stem) = length stem" by (rule length_lower)
  from base occ have low: "?low = lower stem @ py ''.jpg'' @ rest"
    by (simp add: lower_append)
  with len have here: "prefix (py ''.jpg'') (drop (length stem) ?low)" by simp
  have "\<forall>j<length stem. \<not> prefix (py ''.jpg'') (drop j ?low)"
  proof (intro allI impI notI)
    fix j assume j: "j < length stem" and m: "prefix (py ''.jpg'') (drop j ?low)"
    from m obtain rest' where d: "drop j ?low = py ''.jpg'' @ rest'"
      unfolding prefix_def by blast
    have "?low = take j ?low @ drop j ?low" by simp
    with d have "?low = take j ?low @ py ''.jpg'' @ rest'" by simp
    from first [OF this] have "length stem \<le> length (take j ?low)" .
    with j show False by simp
  qed
  with here have "find_sub (py ''.jpg'') ?low = Some (length stem)" by (rule find_sub_first)
  with none base show ?thesis by (simp add: csv_name_to_tif_def)
qed

lemma first_jpg_stem_example: "csv_name_to_tif (py ''shot.jpg'') = py ''shot.tif''"
proof -
  have n: "re_search_rf (lower (basename (py ''shot.jpg''))) = None" by code_simp
  have f: "find_sub (py ''.jpg'') (lower (basename (py ''shot.jpg''))) = Some 4" by code_simp
  have base: "basename (py ''shot.jpg'') = py ''shot'' @ py ''.jpg''" by code_simp
  have occ: "lower (py ''.jpg'') = py ''.jpg'' @ []" by code_simp
  have "csv_name_to_tif (py ''shot.jpg'') = py ''shot'' @ py ''.tif''"
  proof (rule first_jpg_stem [OF _ base _ occ])
    fix pre' ext' rest'
    assume "ext' \<in> {py ''jpg'', py ''jpeg'', py ''png'', py ''tif'', py ''tiff''}"
    with n show "lower (basename (py ''shot.jpg'')) \<noteq> pre' @ py ''_'' @ ext' @ py ''.rf.'' @ rest'"
      by (rule no_rf_segment)
  next
    show "U0130 \<notin> set (py ''shot'')" by simp
  next
    fix pre' rest'
    assume "lower (basename (py ''shot.jpg'')) = pre' @ py ''.jpg'' @ rest'"
    with f have "4 \<le> length pre'" by (rule find_sub_least)
    then show "length (py ''shot'') \<le> length pre'" by simp
  qed
  then show ?thesis by simp
qed

text \<open>
  C6, where the source goes wrong, for the same reason as in C1: the index of \<open>.jpg\<close>
  is found in the lowercased name and used to cut the name itself. For \<open>X.jpg\<close> with
  U+0130 as \<open>X\<close> the result is \<open>X..tif\<close>, not \<open>X.tif\<close>; the claim's own example,
  \<open>shot.jpg\<close>, gives \<open>shot.tif\<close>.
\<close>

theorem first_jpg_stem_miscut:
  "re_search_rf (lower (basename ([U0130] @ py ''.jpg''))) = None \<and>
   find_sub (py ''.jpg'') (lower (basename ([U0130] @ py ''.jpg''))) = Some 2 \<and>
   csv_name_to_tif ([U0130] @ py ''.jpg'') = [U0130] @ py ''..tif'' \<and>
   csv_name_to_tif ([U0130] @ py ''.jpg'') \<noteq> [U0130] @ py ''.tif'' \<and>
   csv_name_to_tif (py ''shot.jpg'') = py ''shot.tif''"
  by code_simp

lemma splitext_fst_set: "set (fst (splitext p)) \<subseteq> set p"
  by (auto simp: splitext_def Let_def dest: in_set_takeD)

lemma csv_name_to_tif_stem:
  "\<exists>stem. csv_name_to_tif name = stem @ py ''.tif'' \<and> set stem \<subseteq> set (basename name)"
proof (cases "re_search_rf (lower (basename name))")
  case (Some i)
  then have "csv_name_to_tif name = take i (basename name) @ py ''.tif''"
    by (simp add: csv_name_to_tif_def)
  moreover have "set (take i (basename name)) \<subseteq> set (basename name)"
    by (rule set_take_subset)
  ultimately show ?thesis by blast
next
  case None
  show ?thesis
  proof (cases "find_sub (py ''.jpg'') (lower (basename name))")
    case (Some i)
    with None have "csv_name_to_tif name = take i (basename name) @ py ''.tif''"
      by (simp add: csv_name_to_tif_def)
    moreover have "set (take i (basename name)) \<subseteq> set (basename name)"
      by (rule set_take_subset)
    ultimately show ?thesis by blast
  next
    case n: None
    with None have "csv_name_to_tif name = fst (splitext (basename name)) @ py ''.tif''"
      by (simp add: csv_name_to_tif_def)
    with splitext_fst_set [of "basename name"] show ?thesis by blast
  qed
qed

text \<open>
  C9: for every input, the transformed name ends in \<open>.tif\<close> and is a basename (it
  holds no separator).
\<close>

theorem transformer_ends_in_tif:
  "endswith (csv_name_to_tif name) (py ''.tif'') \<and> sep \<notin> set (csv_name_to_tif name)"
proof -
  from csv_name_to_tif_stem obtain stem where r: "csv_name_to_tif name = stem @ py ''.tif''"
    and s: "set stem \<subseteq> set (basename name)" by blast
  from s have "sep \<notin> set stem" using basename_no_sep [of name] by blast
  with r show ?thesis by (simp add: endswith_def sep_def py_def)
qed

theorem transformer_ends_in_tif_witness:
  "endswith (csv_name_to_tif (py ''dir/.hidden'')) (py ''.tif'') \<and> csv_name_to_tif (py ''dir/.hidden'') = py ''.hidden.tif''"
proof -
  have "csv_name_to_tif (py ''dir/.hidden'') = py ''.hidden.tif''" by code_simp
  with transformer_ends_in_tif [of "py ''dir/.hidden''"] show ?thesis by simp
qed

section \<open>Resolver: one retry\<close>

lemma endswith_iff: "endswith s suf \<longleftrightarrow> (\<exists>stem. s = stem @ suf)"
proof
  assume "endswith s suf"
  then have "s = take (length s - length suf) s @ suf"
    by (metis append_take_drop_id endswith_def)
  then show "\<exists>stem. s = stem @ suf" ..
next
  assume "\<exists>stem. s = stem @ suf"
  then show "endswith s suf" by (auto simp: endswith_def)
qed

text \<open>
  C3: the resolver looks the target up first. When that lookup gives something, or the
  target does not end in \<open>.tif\<close>, this is the only lookup and its result is returned.
  When it gives nothing and the target is \<open>stem.tif\<close>, there is exactly one more lookup,
  of \<open>stem.tiff\<close>, and its result is returned; nothing else is looked up.
\<close>

theorem resolver_single_retry:
  "(\<not> (index_get index target = [] \<and> endswith target (py ''.tif'')) \<longrightarrow>
      resolve index target = ([target], index_get index target)) \<and>
   (index_get index target = [] \<and> endswith target (py ''.tif'') \<longrightarrow>
      (\<exists>stem. target = stem @ py ''.tif'' \<and>
         resolve index target = ([target, stem @ py ''.tiff''], index_get index (stem @ py ''.tiff''))))"
proof (intro conjI impI)
  assume "\<not> (index_get index target = [] \<and> endswith target (py ''.tif''))"
  then show "resolve index target = ([target], index_get index target)"
    by (auto simp: resolve_def Let_def)
next
  assume a: "index_get index target = [] \<and> endswith target (py ''.tif'')"
  then obtain stem where t: "target = stem @ py ''.tif''"
    unfolding endswith_iff by blast
  then have "take (length target - 4) target = stem" by simp
  with a have "resolve index target = ([target, stem @ py ''.tiff''], index_get index (stem @ py ''.tiff''))"
    by (simp add: resolve_def Let_def)
  with t show "\<exists>stem. target = stem @ py ''.tif'' \<and>
      resolve index target = ([target, stem @ py ''.tiff''], index_get index (stem @ py ''.tiff''))"
    by blast
qed

theorem resolver_single_retry_witness:
  "resolve [py ''a.tiff'' \<mapsto> [py ''r/a.tiff'']] (py ''a.tif'') = ([py ''a.tif'', py ''a.tiff''], [py ''r/a.tiff'']) \<and>
   resolve [py ''a.tiff'' \<mapsto> [py ''r/a.tiff'']] (py ''a.png'') = ([py ''a.png''], [])"
proof -
  let ?ix = "[py ''a.tiff'' \<mapsto> [py ''r/a.tiff'']]"
  have h1: "index_get ?ix (py ''a.tif'') = [] \<and> endswith (py ''a.tif'') (py ''.tif'')"
    by (simp add: index_get_def endswith_def)
  with resolver_single_retry [of ?ix "py ''a.tif''"] obtain stem
    where "py ''a.tif'' = stem @ py ''.tif''"
      and r: "resolve ?ix (py ''a.tif'') = ([py ''a.tif'', stem @ py ''.tiff''], index_get ?ix (stem @ py ''.tiff''))"
    by blast
  then have "stem = py ''a''" by simp 
  with r have 1: "resolve ?ix (py ''a.tif'') = ([py ''a.tif'', py ''a.tiff''], [py ''r/a.tiff''])"
    by (simp add: index_get_def)
  have h2: "\<not> (index_get ?ix (py ''a.png'') = [] \<and> endswith (py ''a.png'') (py ''.tif''))"
    by (simp add: endswith_def)
  with resolver_single_retry [of ?ix "py ''a.png''"]
  have "resolve ?ix (py ''a.png'') = ([py ''a.png''], index_get ?ix (py ''a.png''))" by blast
  then have 2: "resolve ?ix (py ''a.png'') = ([py ''a.png''], [])" by (simp add: index_get_def)
  from 1 2 show ?thesis by simp
qed

section \<open>Indexer: the keys\<close>

lemma basename_eq: "basename p = rev (takeWhile (\<lambda>c. c \<noteq> sep) (rev p))"
proof (cases "rfind_char sep p")
  case None
  then have "sep \<notin> set p" by (simp add: rfind_char_None_iff)
  then have tw: "takeWhile (\<lambda>c. c \<noteq> sep) (rev p) = rev p"
    by (intro takeWhile_eq_all_conv [THEN iffD2]) auto
  show ?thesis unfolding basename_def None tw by simp
next
  case (Some i)
  from rfind_char_Some [OF Some] have i: "i < length p" and at: "p ! i = sep"
    and after: "sep \<notin> set (drop (Suc i) p)" by auto
  from i at have "p = take i p @ sep # drop (Suc i) p"
    by (metis id_take_nth_drop)
  then have "rev p = rev (drop (Suc i) p) @ sep # rev (take i p)"
    by (metis rev.simps(2) rev_append append_assoc append_Cons append_Nil)
  moreover from after have "\<forall>x \<in> set (rev (drop (Suc i) p)). x \<noteq> sep" by auto
  ultimately have "takeWhile (\<lambda>c. c \<noteq> sep) (rev p) = rev (drop (Suc i) p)"
    by (simp add: takeWhile_tail)
  with Some show ?thesis by (simp add: basename_def)
qed

lemma basename_join:
  assumes "sep \<notin> set f"
  shows "basename (join a f) = f"
proof -
  from assms have nohd: "\<not> (f \<noteq> [] \<and> hd f = sep)" by (cases f) auto
  show ?thesis
  proof (cases "a = [] \<or> last a = sep")
    case True
    with nohd have j: "join a f = a @ f" by (auto simp: join_def)
    have "takeWhile (\<lambda>c. c \<noteq> sep) (rev a) = []"
    proof (cases "rev a")
      case Nil
      then show ?thesis by simp
    next
      case (Cons y ys)
      then have "a \<noteq> []" "y = last a" by (auto simp: hd_rev [symmetric])
      with True Cons show ?thesis by simp
    qed
    moreover have "takeWhile (\<lambda>c. c \<noteq> sep) (rev f @ rev a)
        = rev f @ takeWhile (\<lambda>c. c \<noteq> sep) (rev a)"
      by (rule takeWhile_append2) (use assms in auto)
    ultimately have "takeWhile (\<lambda>c. c \<noteq> sep) (rev f @ rev a) = rev f"
      by simp
    with j show ?thesis by (simp add: basename_eq)
  next
    case False
    with nohd have j: "join a f = a @ [sep] @ f" by (auto simp: join_def)
    have "takeWhile (\<lambda>c. c \<noteq> sep) (rev f @ sep # rev a)
        = rev f @ takeWhile (\<lambda>c. c \<noteq> sep) (sep # rev a)"
      by (rule takeWhile_append2) (use assms in auto)
    then have "takeWhile (\<lambda>c. c \<noteq> sep) (rev f @ sep # rev a) = rev f"
      by simp
    with j show ?thesis by (simp add: basename_eq)
  qed
qed

lemma index_inv_empty: "index_inv ci Map.empty"
  by (simp add: index_inv_def)

lemma index_inv_add:
  assumes "index_inv ci index" and "sep \<notin> set file"
  shows "index_inv ci (index_add ci root file index)"
proof -
  from assms(2) have b: "basename (join root file) = file" by (rule basename_join)
  show ?thesis
    unfolding index_inv_def
  proof (intro allI impI)
    fix k ps p
    assume look: "index_add ci root file index k = Some ps" and p: "p \<in> set ps"
    show "fold_case ci (basename p) = k"
    proof (cases "k = fold_case ci file")
      case True
      with look have "ps = (case index k of None \<Rightarrow> [] | Some qs \<Rightarrow> qs) @ [join root file]"
        by (auto simp: index_add_def fold_case_def Let_def)
      with p have "p = join root file \<or> (\<exists>qs. index k = Some qs \<and> p \<in> set qs)"
        by (auto split: option.splits)
      with assms(1) b True show ?thesis by (auto simp: index_inv_def)
    next
      case False
      with look have "index k = Some ps"
        by (auto simp: index_add_def fold_case_def Let_def split: if_splits)
      with assms(1) p show ?thesis by (auto simp: index_inv_def)
    qed
  qed
qed

lemma index_inv_fold_files:
  "index_inv ci index \<Longrightarrow> \<forall>f \<in> set files. sep \<notin> set f \<Longrightarrow>
   index_inv ci (fold (index_add ci root) files index)"
  by (induction files arbitrary: index) (simp_all add: index_inv_add)

lemma os_walk_files:
  "component_names tree \<Longrightarrow> (r, ds, fs) \<in> set (os_walk root tree) \<Longrightarrow>
   \<forall>f \<in> set fs. sep \<notin> set f"
proof (induction root tree arbitrary: r ds fs rule: os_walk.induct)
  case (1 root)
  then show ?case by simp
next
  case (2 root files subs)
  from "2.prems"(2) consider "(r, ds, fs) = (root, map fst subs, files)"
    | sub where "sub \<in> set subs" "(r, ds, fs) \<in> set (os_walk (join root (fst sub)) (snd sub))"
    by auto
  then show ?case
  proof cases
    case 1
    with "2.prems"(1) show ?thesis by simp
  next
    case (2 sub)
    with "2.prems"(1) have "component_names (snd sub)" by simp
    from "2.IH" [OF \<open>sub \<in> set subs\<close> this 2(2)] show ?thesis .
  qed
qed

lemma index_inv_fold_walk:
  assumes "index_inv ci index"
    and "\<forall>(r, ds, fs) \<in> set triples. \<forall>f \<in> set fs. sep \<notin> set f"
  shows "index_inv ci (fold (\<lambda>(root, dirs, files) index. fold (index_add ci root) files index) triples index)"
  using assms
proof (induction triples arbitrary: index)
  case Nil
  then show ?case by simp
next
  case (Cons t ts)
  obtain r ds fs where t: "t = (r, ds, fs)" by (cases t)
  with Cons.prems have "index_inv ci (fold (index_add ci r) fs index)"
    by (intro index_inv_fold_files) auto
  with Cons.IH [of "fold (index_add ci r) fs index"] Cons.prems(2) t show ?case by simp
qed

lemma build_filename_index_inv:
  "component_names tree \<Longrightarrow> index_inv ci (build_filename_index tree root ci)"
  unfolding build_filename_index_def
  by (intro index_inv_fold_walk index_inv_empty) (auto dest: os_walk_files)

text \<open>
  C4, amended: every path stored under a key has a basename whose case folding
  (lowercasing when case-insensitive, nothing otherwise) is the key; the Name Normalizer
  gives the key as well when that basename neither begins nor ends with a white space or
  quote character.
\<close>

theorem index_keys_fold_basenames:
  assumes "component_names tree"
    and "build_filename_index tree root ci k = Some ps"
    and "p \<in> set ps"
  shows "(if ci then lower (basename p) else basename p) = k \<and>
         (clean_ends (basename p) \<longrightarrow> normalize_name (basename p) ci = k)"
proof -
  from build_filename_index_inv [OF assms(1)] assms(2,3)
  have k: "fold_case ci (basename p) = k" unfolding index_inv_def by blast
  moreover have "clean_ends (basename p) \<Longrightarrow> normalize_name (basename p) ci = k"
    using k basename_no_sep [of p] by (simp add: normalize_name_clean fold_case_def)
  ultimately show ?thesis by (auto simp: fold_case_def)
qed

theorem index_keys_fold_basenames_witness:
  "component_names (Listing [py ''A.TIF''] [((py ''sub''), Listing [py ''a.tif''] [])]) \<and>
   build_filename_index (Listing [py ''A.TIF''] [((py ''sub''), Listing [py ''a.tif''] [])]) (py ''r'') True (py ''a.tif'')
     = Some [py ''r/A.TIF'', py ''r/sub/a.tif''] \<and>
   lower (basename (py ''r/sub/a.tif'')) = py ''a.tif'' \<and>
   normalize_name (basename (py ''r/A.TIF'')) True = py ''a.tif''"
proof -
  let ?t = "Listing [py ''A.TIF''] [((py ''sub''), Listing [py ''a.tif''] [])]"
  have c: "component_names ?t" by (simp add: sep_def)
  have b: "build_filename_index ?t (py ''r'') True (py ''a.tif'') = Some [py ''r/A.TIF'', py ''r/sub/a.tif'']"
    by code_simp
  have ce: "clean_ends (basename (py ''r/A.TIF''))" by code_simp
  from index_keys_fold_basenames [OF c b, of "py ''r/sub/a.tif''"]
  have 1: "lower (basename (py ''r/sub/a.tif'')) = py ''a.tif''" by simp
  from index_keys_fold_basenames [OF c b, of "py ''r/A.TIF''"] ce
  have 2: "normalize_name (basename (py ''r/A.TIF'')) True = py ''a.tif''" by simp
  from c b 1 2 show ?thesis by simp
qed

text \<open>
  C4, as the source has it: the indexer folds the case of a file's name and does
  nothing else to it, so a file whose name begins with a blank is stored under a key
  that the Name Normalizer does not produce.
\<close>

theorem index_keys_not_normalized:
  "build_filename_index (Listing [py '' x.tif''] []) (py ''r'') True (py '' x.tif'') = Some [py ''r/ x.tif''] \<and>
   normalize_name (basename (py ''r/ x.tif'')) True \<noteq> py '' x.tif''"
  by code_simp

section \<open>Indexer: unreadable directories\<close>

lemma build_filename_index_walk_files:
  "build_filename_index tree root ci =
     fold (\<lambda>(r, files) index. fold (index_add ci r) files index)
       (walk_files (os_walk root tree)) Map.empty"
proof -
  have "\<And>index. fold (\<lambda>(root, dirs, files) index. fold (index_add ci root) files index) ts index
      = fold (\<lambda>(r, files) index. fold (index_add ci r) files index) (walk_files ts) index" for ts
    by (induction ts) (auto simp: walk_files_def)
  then show ?thesis by (simp add: build_filename_index_def)
qed

lemma walk_files_Cons: "walk_files ((r, ds, fs) # ts) = (r, fs) # walk_files ts"
  by (simp add: walk_files_def)

lemma walk_files_append: "walk_files (xs @ ys) = walk_files xs @ walk_files ys"
  by (simp add: walk_files_def)

lemma walk_files_concat: "walk_files (concat xss) = concat (map walk_files xss)"
  by (induction xss) (simp_all add: walk_files_append, simp add: walk_files_def)

lemma walk_files_prune: "walk_files (os_walk root (prune tree)) = walk_files (os_walk root tree)"
proof (induction root tree rule: os_walk.induct)
  case (1 root)
  then show ?case by simp
next
  case (2 root files subs)
  have "concat (map (\<lambda>sub. walk_files (os_walk (join root (fst sub)) (prune (snd sub))))
            (filter (\<lambda>sub. snd sub \<noteq> Unreadable) subs))
      = concat (map (\<lambda>sub. walk_files (os_walk (join root (fst sub)) (snd sub))) subs)"
    using "2.IH"
  proof (induction subs)
    case Nil
    then show ?case by simp
  next
    case (Cons s ss)
    then show ?case by (cases "snd s = Unreadable") (simp_all add: walk_files_def)
  qed
  moreover have "walk_files (os_walk root (prune (Listing files subs)))
      = (root, files) # concat (map (\<lambda>sub. walk_files (os_walk (join root (fst sub)) (prune (snd sub))))
            (filter (\<lambda>sub. snd sub \<noteq> Unreadable) subs))"
    by (simp add: walk_files_Cons walk_files_concat comp_def)
  moreover have "walk_files (os_walk root (Listing files subs))
      = (root, files) # concat (map (\<lambda>sub. walk_files (os_walk (join root (fst sub)) (snd sub))) subs)"
    by (simp add: walk_files_Cons walk_files_concat comp_def)
  ultimately show ?case by simp
qed

text \<open>
  C8, amended: the indexer raises nothing. An unreadable root gives the empty index,
  and unreadable subdirectories, at any depth, are skipped: the index is that of the
  tree without them.
\<close>

theorem index_skips_unreadable:
  "build_filename_index Unreadable root ci = Map.empty \<and>
   build_filename_index (prune tree) root ci = build_filename_index tree root ci"
  by (simp add: build_filename_index_walk_files walk_files_prune) (simp add: walk_files_def)

theorem index_skips_unreadable_witness:
  "build_filename_index (Listing [py ''a.tif''] [((py ''locked''), Unreadable), ((py ''ok''), Listing [py ''b.tif''] [])]) (py ''r'') True (py ''b.tif'')
     = Some [py ''r/ok/b.tif'']"
proof -
  let ?t = "Listing [py ''a.tif''] [((py ''locked''), Unreadable), ((py ''ok''), Listing [py ''b.tif''] [])]"
  have p: "prune ?t = Listing [py ''a.tif''] [((py ''ok''), Listing [py ''b.tif''] [])]" by simp
  have "build_filename_index (prune ?t) (py ''r'') True (py ''b.tif'') = Some [py ''r/ok/b.tif'']"
    unfolding p by code_simp
  with index_skips_unreadable [of "py ''r''" True ?t] show ?thesis by simp
qed

text \<open>
  C8, as the source has it: with a search root that cannot be read, the run is not
  aborted; it reports the name as not found and returns.
\<close>

theorem unreadable_root_not_fatal:
  "is_Returns
     (find_and_copy_from_csv
        \<lparr>tables = [py ''t.csv'' \<mapsto> \<lparr>has_header = True, table_rows = [[py ''filename''], [py ''x.jpg'']]\<rparr>],
         tree_at = (\<lambda>p. Unreadable), relpath = (\<lambda>p start. p),
         copy_fails = (\<lambda>src dst. False), mkdir_fails = (\<lambda>p. False)\<rparr>
        (py ''t.csv'') (py ''root'') (py ''dest'') None True False False
        \<lparr>store = Map.empty, ops = [], console = []\<rparr>) \<and>
   console (world_of
     (find_and_copy_from_csv
        \<lparr>tables = [py ''t.csv'' \<mapsto> \<lparr>has_header = True, table_rows = [[py ''filename''], [py ''x.jpg'']]\<rparr>],
         tree_at = (\<lambda>p. Unreadable), relpath = (\<lambda>p start. p),
         copy_fails = (\<lambda>src dst. False), mkdir_fails = (\<lambda>p. False)\<rparr>
        (py ''t.csv'') (py ''root'') (py ''dest'') None True False False
        \<lparr>store = Map.empty, ops = [], console = []\<rparr>))
     = [Reading (py ''t.csv''), Indexing (py ''root''), WillLook 1 (py ''dest''), NotFound (py ''x.tif''), NoMatch]"
  by code_simp

section \<open>CSV Filename Extractor: the column\<close>

lemma likely_iff: "lower cand \<in> set LIKELY_FILENAME_COLUMNS \<longleftrightarrow> likely cand"
  by (simp add: LIKELY_FILENAME_COLUMNS_def likely_def)

lemma select_column_given:
  "column_given column fieldnames \<Longrightarrow> \<exists>c. column = Some c \<and> select_column column fieldnames = Inr c"
  by (cases column) (auto simp: column_given_def select_column_def)

lemma select_column_not_given:
  "\<not> column_given column fieldnames \<Longrightarrow>
   select_column column fieldnames =
     (case find likely fieldnames of
        Some cand \<Rightarrow> Inr cand
      | None \<Rightarrow> if fieldnames \<noteq> [] \<and> hd fieldnames \<noteq> [] then Inr (hd fieldnames) else Inl ValueError)"
proof -
  have ne: "find likely fieldnames = Some cand \<Longrightarrow> cand \<noteq> []" for cand
    by (auto simp: find_Some_iff likely_def lower_def)
  assume "\<not> column_given column fieldnames"
  then show ?thesis
    by (cases column) (auto simp: column_given_def select_column_def likely_iff
        split: option.splits dest: ne)
qed

lemma find_first:
  "i < length xs \<Longrightarrow> P (xs ! i) \<Longrightarrow> \<forall>j<i. \<not> P (xs ! j) \<Longrightarrow> find P xs = Some (xs ! i)"
  unfolding find_Some_iff by blast

text \<open>
  C7, amended. With a header, the column is (i) the configured one when it is given,
  not empty and among the stripped names; (ii) otherwise the first name that is
  \<open>filename\<close> in lower case; (iii) otherwise the first name, when there is one and it is
  not empty. The choice fails, with \<open>ValueError\<close>, exactly when none of the three
  applies: the configured column is not usable, no name is \<open>filename\<close>, and there is
  no name or the first one is empty. The extractor fails with that error exactly when
  the choice does, and the run then ends with it after its first message, the file
  system untouched and nothing walked or copied.
\<close>

theorem column_choice:
  "(column_given column fieldnames \<longrightarrow>
      (\<exists>c. column = Some c \<and> select_column column fieldnames = Inr c)) \<and>
   (\<not> column_given column fieldnames \<and> i < length fieldnames \<and>
    lower (fieldnames ! i) = py ''filename'' \<and> (\<forall>j<i. lower (fieldnames ! j) \<noteq> py ''filename'') \<longrightarrow>
      select_column column fieldnames = Inr (fieldnames ! i)) \<and>
   (\<not> column_given column fieldnames \<and> (\<forall>h \<in> set fieldnames. lower h \<noteq> py ''filename'') \<and>
    fieldnames \<noteq> [] \<and> hd fieldnames \<noteq> [] \<longrightarrow>
      select_column column fieldnames = Inr (hd fieldnames)) \<and>
   (select_column column fieldnames = Inl ValueError \<longleftrightarrow>
      \<not> column_given column fieldnames \<and> (\<forall>h \<in> set fieldnames. lower h \<noteq> py ''filename'') \<and>
      (fieldnames = [] \<or> hd fieldnames = [])) \<and>
   (tables E csv_path = Some t \<and> has_header t \<longrightarrow>
      (load_filenames_from_csv (tables E) csv_path column ci = Inl ValueError \<longleftrightarrow>
       select_column column (map strip (case table_rows t of [] \<Rightarrow> [] | r # rs \<Rightarrow> r))
         = Inl ValueError)) \<and>
   (load_filenames_from_csv (tables E) csv_path column ci = Inl e \<longrightarrow>
      find_and_copy_from_csv E csv_path search_path destination column ci overwr keep w
        = Raises e (w\<lparr>console := console w @ [Reading csv_path]\<rparr>))"
proof (intro conjI impI)
  assume "column_given column fieldnames"
  then show "\<exists>c. column = Some c \<and> select_column column fieldnames = Inr c"
    by (rule select_column_given)
next
  assume a: "\<not> column_given column fieldnames \<and> i < length fieldnames \<and>
    lower (fieldnames ! i) = py ''filename'' \<and> (\<forall>j<i. lower (fieldnames ! j) \<noteq> py ''filename'')"
  then have "find likely fieldnames = Some (fieldnames ! i)"
    by (intro find_first) (auto simp: likely_def)
  with a show "select_column column fieldnames = Inr (fieldnames ! i)"
    by (simp add: select_column_not_given)
next
  assume a: "\<not> column_given column fieldnames \<and> (\<forall>h \<in> set fieldnames. lower h \<noteq> py ''filename'') \<and>
    fieldnames \<noteq> [] \<and> hd fieldnames \<noteq> []"
  then have "find likely fieldnames = None"
    by (auto simp: find_None_iff likely_def)
  with a show "select_column column fieldnames = Inr (hd fieldnames)"
    by (simp add: select_column_not_given)
next
  show "select_column column fieldnames = Inl ValueError \<longleftrightarrow>
      \<not> column_given column fieldnames \<and> (\<forall>h \<in> set fieldnames. lower h \<noteq> py ''filename'') \<and>
      (fieldnames = [] \<or> hd fieldnames = [])"
  proof (cases "column_given column fieldnames")
    case True
    with select_column_given [OF True] show ?thesis by auto
  next
    case False
    show ?thesis
    proof (cases "find likely fieldnames")
      case None
      then have "\<forall>h \<in> set fieldnames. lower h \<noteq> py ''filename''"
        by (auto simp: find_None_iff likely_def)
      with False None show ?thesis by (auto simp: select_column_not_given)
    next
      case (Some cand)
      then have "\<exists>h \<in> set fieldnames. lower h = py ''filename''"
        by (auto simp: find_Some_iff likely_def)
      with False Some show ?thesis by (auto simp: select_column_not_given)
    qed
  qed
next
  assume "tables E csv_path = Some t \<and> has_header t"
  then show "load_filenames_from_csv (tables E) csv_path column ci = Inl ValueError \<longleftrightarrow>
       select_column column (map strip (case table_rows t of [] \<Rightarrow> [] | r # rs \<Rightarrow> r))
         = Inl ValueError"
    by (auto simp: load_filenames_from_csv_def Let_def split: sum.splits)
next
  assume "load_filenames_from_csv (tables E) csv_path column ci = Inl e"
  then show "find_and_copy_from_csv E csv_path search_path destination column ci overwr keep w
        = Raises e (w\<lparr>console := console w @ [Reading csv_path]\<rparr>)"
    by (simp add: find_and_copy_from_csv_def)
qed

theorem column_choice_witness:
  "select_column (Some (py ''img'')) [py ''id'', py ''img''] = Inr (py ''img'') \<and>
   select_column None [py ''id'', py ''FileName'', py ''filename''] = Inr (py ''FileName'') \<and>
   select_column (Some (py ''zz'')) [py ''id'', py ''x''] = Inr (py ''id'') \<and>
   select_column None [] = Inl ValueError \<and>
   load_filenames_from_csv [py ''t.csv'' \<mapsto> \<lparr>has_header = True, table_rows = []\<rparr>]
     (py ''t.csv'') None True = Inl ValueError \<and>
   find_and_copy_from_csv
     \<lparr>tables = [py ''t.csv'' \<mapsto> \<lparr>has_header = True, table_rows = []\<rparr>],
      tree_at = (\<lambda>p. Unreadable), relpath = (\<lambda>p start. p),
      copy_fails = (\<lambda>src dst. False), mkdir_fails = (\<lambda>p. False)\<rparr>
     (py ''t.csv'') (py ''root'') (py ''dest'') None True False False
     \<lparr>store = Map.empty, ops = [], console = []\<rparr>
     = Raises ValueError \<lparr>store = Map.empty, ops = [], console = [Reading (py ''t.csv'')]\<rparr>"
proof -
  let ?E = "\<lparr>tables = [py ''t.csv'' \<mapsto> \<lparr>has_header = True, table_rows = []\<rparr>],
      tree_at = (\<lambda>p. Unreadable), relpath = (\<lambda>p start. p),
      copy_fails = (\<lambda>src dst. False), mkdir_fails = (\<lambda>p. False)\<rparr>"
  let ?t = "\<lparr>has_header = True, table_rows = []\<rparr>"
  let ?w = "\<lparr>store = Map.empty, ops = [], console = []\<rparr>"
  have g: "column_given (Some (py ''img'')) [py ''id'', py ''img'']" by (simp add: column_given_def)
  with column_choice [where column = "Some (py ''img'')" and fieldnames = "[py ''id'', py ''img'']"]
  have 1: "select_column (Some (py ''img'')) [py ''id'', py ''img''] = Inr (py ''img'')" by auto
  have l: "lower (py ''FileName'') = py ''filename''" "lower (py ''id'') \<noteq> py ''filename''" 
    "lower (py ''x'') \<noteq> py ''filename''" by code_simp+
  have "\<not> column_given None [py ''id'', py ''FileName'', py ''filename''] \<and> 1 < length [py ''id'', py ''FileName'', py ''filename''] \<and>
    lower ([py ''id'', py ''FileName'', py ''filename''] ! 1) = py ''filename'' \<and>
    (\<forall>j<1. lower ([py ''id'', py ''FileName'', py ''filename''] ! j) \<noteq> py ''filename'')"
    using l by (simp add: column_given_def)
  with column_choice [where column = None and fieldnames = "[py ''id'', py ''FileName'', py ''filename'']" and i = 1]
  have 2: "select_column None [py ''id'', py ''FileName'', py ''filename''] = Inr (py ''FileName'')" by simp
  have "\<not> column_given (Some (py ''zz'')) [py ''id'', py ''x''] \<and> (\<forall>h \<in> set [py ''id'', py ''x'']. lower h \<noteq> py ''filename'') \<and>
    [py ''id'', py ''x''] \<noteq> [] \<and> hd [py ''id'', py ''x''] \<noteq> []"
    using l by (simp add: column_given_def)
  with column_choice [where column = "Some (py ''zz'')" and fieldnames = "[py ''id'', py ''x'']"]
  have 3: "select_column (Some (py ''zz'')) [py ''id'', py ''x''] = Inr (py ''id'')" by simp
  have "\<not> column_given None [] \<and> (\<forall>h \<in> set ([] :: pystr list). lower h \<noteq> py ''filename'') \<and>
    (([] :: pystr list) = [] \<or> hd ([] :: pystr list) = [])"
    by (simp add: column_given_def)
  with column_choice [where column = None and fieldnames = "[]"]
  have 4: "select_column None [] = Inl ValueError" by blast
  have "tables ?E (py ''t.csv'') = Some ?t \<and> has_header ?t" by simp
  with column_choice [where E = ?E and csv_path = "py ''t.csv''" and t = ?t and column = None and ci = True]
  have "load_filenames_from_csv (tables ?E) (py ''t.csv'') None True = Inl ValueError \<longleftrightarrow>
     select_column None (map strip (case table_rows ?t of [] \<Rightarrow> [] | r # rs \<Rightarrow> r)) = Inl ValueError"
    by blast
  with 4 have 5: "load_filenames_from_csv (tables ?E) (py ''t.csv'') None True = Inl ValueError" by simp
  with column_choice [where E = ?E and csv_path = "py ''t.csv''" and column = None and ci = True
      and e = ValueError and search_path = "py ''root''" and destination = "py ''dest''"
      and overwr = False and keep = False and w = ?w]
  have 6: "find_and_copy_from_csv ?E (py ''t.csv'') (py ''root'') (py ''dest'') None True False False ?w
      = Raises ValueError (?w\<lparr>console := console ?w @ [Reading (py ''t.csv'')]\<rparr>)" by blast
  from 1 2 3 4 5 6 show ?thesis by simp
qed

text \<open>
  C7, as the source has it: \<^verbatim>\<open>not use_col\<close> also holds for the empty string, so a
  header whose first name is empty makes the extractor fail although the table has
  columns, one of them with a name.
\<close>

theorem empty_first_header_fails:
  "select_column None [py '''', py ''name''] = Inl ValueError \<and>
   load_filenames_from_csv
     [py ''t.csv'' \<mapsto> \<lparr>has_header = True, table_rows = [[py '''', py ''name''], [py ''1'', py ''a.jpg'']]\<rparr>]
     (py ''t.csv'') None True = Inl ValueError"
  by code_simp

text \<open>
  C10: when the extractor returns no name, the run returns after two messages; the
  file system is as it was, and nothing has been walked, created or copied.
\<close>

theorem pipeline_nothing_to_do:
  assumes "load_filenames_from_csv (tables E) csv_path column ci = Inr []"
  shows "find_and_copy_from_csv E csv_path search_path destination column ci overwr keep w
           = Returns () (w\<lparr>console := console w @ [Reading csv_path, NothingToDo]\<rparr>) \<and>
         store (world_of (find_and_copy_from_csv E csv_path search_path destination column ci
                   overwr keep w)) = store w \<and>
         ops (world_of (find_and_copy_from_csv E csv_path search_path destination column ci
                   overwr keep w)) = ops w"
  using assms by (simp add: find_and_copy_from_csv_def)

theorem pipeline_nothing_to_do_witness:
  "load_filenames_from_csv
     [py ''t.csv'' \<mapsto> \<lparr>has_header = True, table_rows = [[py ''filename''], [py ''  ''], []]\<rparr>]
     (py ''t.csv'') None True = Inr [] \<and>
   find_and_copy_from_csv
     \<lparr>tables = [py ''t.csv'' \<mapsto> \<lparr>has_header = True, table_rows = [[py ''filename''], [py ''  ''], []]\<rparr>],
      tree_at = (\<lambda>p. Listing [py ''a.tif''] []), relpath = (\<lambda>p start. p),
      copy_fails = (\<lambda>src dst. False), mkdir_fails = (\<lambda>p. False)\<rparr>
     (py ''t.csv'') (py ''root'') (py ''dest'') None True False False
     \<lparr>store = Map.empty, ops = [], console = []\<rparr>
     = Returns () \<lparr>store = Map.empty, ops = [], console = [Reading (py ''t.csv''), NothingToDo]\<rparr>"
proof -
  let ?E = "\<lparr>tables = [py ''t.csv'' \<mapsto> \<lparr>has_header = True, table_rows = [[py ''filename''], [py ''  ''], []]\<rparr>],
      tree_at = (\<lambda>p. Listing [py ''a.tif''] []), relpath = (\<lambda>p start. p),
      copy_fails = (\<lambda>src dst. False), mkdir_fails = (\<lambda>p. False)\<rparr>"
  let ?w = "\<lparr>store = Map.empty, ops = [], console = []\<rparr>"
  have l: "load_filenames_from_csv
     [py ''t.csv'' \<mapsto> \<lparr>has_header = True, table_rows = [[py ''filename''], [py ''  ''], []]\<rparr>]
     (py ''t.csv'') None True = Inr []" by code_simp
  then have "load_filenames_from_csv (tables ?E) (py ''t.csv'') None True = Inr []" by simp
  from pipeline_nothing_to_do [OF this, of "py ''root''" "py ''dest''" False False ?w] l
  show ?thesis by simp
qed

section \<open>Copy Engine: the collision policy\<close>

lemma nat_of_digits_snoc:
  "nat_of_digits (s @ [c]) = 10 * nat_of_digits s + digit_of c"
  by (simp add: nat_of_digits_def)

lemma digit_of_digit: "d < 10 \<Longrightarrow> digit_of (Ch (char_of (48 + d))) = d"
  by (simp add: digit_of_def)

lemma nat_of_digits_str_nat: "nat_of_digits (str_nat n) = n"
proof (induction n rule: str_nat.induct)
  case (1 n)
  show ?case
  proof (cases "n < 10")
    case True
    then have "str_nat n = [Ch (char_of (48 + n))]" by (simp add: str_nat.simps)
    with True show ?thesis by (simp add: nat_of_digits_def digit_of_digit)
  next
    case False
    then have "str_nat n = str_nat (n div 10) @ [Ch (char_of (48 + n mod 10))]"
      by (simp add: str_nat.simps)
    moreover have "digit_of (Ch (char_of (48 + n mod 10))) = n mod 10"
      by (rule digit_of_digit) simp
    ultimately show ?thesis using "1.IH" [OF False]
      by (simp add: nat_of_digits_snoc)
  qed
qed

lemma str_nat_inj: "str_nat i = str_nat j \<Longrightarrow> i = j"
  by (metis nat_of_digits_str_nat)

lemma candidate_inj:
  assumes "sep \<notin> set base" and "candidate d base ext i = candidate d base ext j"
  shows "i = j"
proof -
  define pfx where "pfx = (if d = [] \<or> last d = sep then d else d @ [sep])"
  have "join d (base @ py ''_'' @ s) = pfx @ base @ py ''_'' @ s" for s
  proof -
    have "hd (base @ py ''_'' @ s) \<noteq> sep"
      using assms(1) by (cases base) (auto simp: sep_def)
    then show ?thesis by (simp add: join_def pfx_def)
  qed
  with assms(2) have "str_nat i @ ext = str_nat j @ ext"
    by (simp add: candidate_def)
  then show ?thesis by (simp add: str_nat_inj)
qed

lemma free_candidate:
  assumes "finite D" and "sep \<notin> set base"
  shows "\<exists>k\<ge>i. candidate d base ext k \<notin> D"
proof (rule ccontr)
  assume "\<not> (\<exists>k\<ge>i. candidate d base ext k \<notin> D)"
  then have "candidate d base ext ` {i..} \<subseteq> D" by auto
  with assms(1) have "finite (candidate d base ext ` {i..})" by (rule finite_subset [rotated])
  moreover have "inj_on (candidate d base ext) {i..}"
    using assms(2) by (auto intro!: inj_onI dest: candidate_inj)
  ultimately have "finite {i..}" by (rule finite_imageD)
  then show False by (simp add: infinite_Ici)
qed

lemma first_free_upto:
  assumes "\<not> ex (candidate d base ext k)" and "i \<le> k"
  shows "\<exists>n. i \<le> n \<and> n \<le> k \<and>
           first_free ex d base ext i = Some (candidate d base ext n) \<and>
           \<not> ex (candidate d base ext n) \<and>
           (\<forall>j. i \<le> j \<and> j < n \<longrightarrow> ex (candidate d base ext j))"
  using assms
proof (induction "k - i" arbitrary: i)
  case 0
  then have "i = k" by simp
  with "0.prems"(1) have "first_free ex d base ext i = Some (candidate d base ext i)"
    by (subst first_free.simps) simp
  with "0.prems"(1) \<open>i = k\<close> show ?case by auto
next
  case (Suc m)
  show ?case
  proof (cases "ex (candidate d base ext i)")
    case False
    then have "first_free ex d base ext i = Some (candidate d base ext i)"
      by (subst first_free.simps) simp
    with False Suc.prems(2) show ?thesis by auto
  next
    case True
    from Suc.hyps(2) have m: "m = k - (i + 1)" and le: "i + 1 \<le> k" by auto
    from Suc.hyps(1) [OF m Suc.prems(1) le] obtain n
      where n: "i + 1 \<le> n" "n \<le> k"
        "first_free ex d base ext (i + 1) = Some (candidate d base ext n)"
        "\<not> ex (candidate d base ext n)"
        "\<forall>j. i + 1 \<le> j \<and> j < n \<longrightarrow> ex (candidate d base ext j)"
      by blast
    from True have "first_free ex d base ext i = first_free ex d base ext (i + 1)"
      by (subst first_free.simps) simp
    moreover have "\<forall>j. i \<le> j \<and> j < n \<longrightarrow> ex (candidate d base ext j)"
    proof (intro allI impI)
      fix j assume j: "i \<le> j \<and> j < n"
      show "ex (candidate d base ext j)"
      proof (cases "j = i")
        case True
        with \<open>ex (candidate d base ext i)\<close> show ?thesis by simp
      next
        case False
        with j n(5) show ?thesis by simp
      qed
    qed
    ultimately show ?thesis using n by (intro exI [of _ n]) auto
  qed
qed

lemma first_free_returns:
  assumes "finite {p. ex p}" and "sep \<notin> set base"
  shows "\<exists>n\<ge>i. first_free ex d base ext i = Some (candidate d base ext n) \<and>
           \<not> ex (candidate d base ext n) \<and>
           (\<forall>j. i \<le> j \<and> j < n \<longrightarrow> ex (candidate d base ext j))"
proof -
  from free_candidate [OF assms, of i d ext] obtain k
    where "i \<le> k" "\<not> ex (candidate d base ext k)" by auto
  with first_free_upto [of ex d base ext k i] show ?thesis by blast
qed

lemma splitext_base_no_sep:
  "splitext (basename src) = (base, ext) \<Longrightarrow> sep \<notin> set base"
  using splitext_fst_set [of "basename src"] basename_no_sep [of src] by auto

lemma ensure_dir_existing:
  "store w path = Some Dir \<Longrightarrow>
   ensure_dir E path w = Returns () (w\<lparr>ops := ops w @ [OpMakedirs path]\<rparr>)"
  by (simp add: ensure_dir_def)

text \<open>
  C2: a source file is copied while a file stands at the proposed path (the source's
  basename in the destination directory, which exists); the copy itself does not fail
  and the file system is finite. With overwrite disabled the loop over the candidates
  returns: the copy is written to \<open>base_n.ext\<close> for the least \<open>n \<ge> 1\<close> whose candidate
  does not exist, every candidate before it exists, and nothing else changes, so the
  file at the proposed path is as it was. With overwrite enabled the proposed path
  holds the source's content afterwards.
\<close>

theorem collision_policy:
  assumes dir: "store w (dest_dir_of E cfg src) = Some Dir"
    and old: "store w (join (dest_dir_of E cfg src) (basename src)) = Some (File old)"
    and src: "store w src = Some (File c)"
    and io: "\<And>dst. \<not> copy_fails E src dst"
    and fin: "finite (dom (store w))"
    and sx: "splitext (basename src) = (base, ext)"
  shows "if overwrite cfg
         then (\<exists>k w'. copy_one E cfg src w copied = Returns k w' \<and>
                 store w' = (store w)(join (dest_dir_of E cfg src) (basename src) \<mapsto> File c))
         else (\<exists>n\<ge>1. \<exists>w'. copy_one E cfg src w copied = Returns (copied + 1) w' \<and>
                 candidate (dest_dir_of E cfg src) base ext n \<notin> dom (store w) \<and>
                 (\<forall>j. 1 \<le> j \<and> j < n \<longrightarrow>
                    candidate (dest_dir_of E cfg src) base ext j \<in> dom (store w)) \<and>
                 store w' = (store w)(candidate (dest_dir_of E cfg src) base ext n \<mapsto> File c) \<and>
                 store w' (join (dest_dir_of E cfg src) (basename src)) = Some (File old))"
proof -
  let ?d = "dest_dir_of E cfg src"
  let ?proposed = "join ?d (basename src)"
  let ?w1 = "w\<lparr>ops := ops w @ [OpMakedirs ?d]\<rparr>"
  have mk: "ensure_dir E ?d w = Returns () ?w1" using dir by (rule ensure_dir_existing)
  have ex: "exists ?w1 = (\<lambda>p. p \<in> dom (store w))" by (rule ext) (simp add: exists_def)
  show ?thesis
  proof (cases "overwrite cfg")
    case True
    then have ch: "choose_dest cfg ?w1 ?d src = Some ?proposed"
      by (simp add: choose_dest_def)
    show ?thesis
    proof (cases "src = ?proposed")
      case same: True
      with src old io have "copy2 E src ?proposed (store ?w1) = None"
        by (simp add: copy2_def)
      with mk ch have "copy_one E cfg src w copied
          = Returns copied (?w1\<lparr>ops := ops ?w1 @ [OpCopy src ?proposed],
                                 console := console ?w1 @ [ErrorCopying src]\<rparr>)"
        by (simp add: copy_one_def Let_def)
      moreover from same src have "(store w)(?proposed \<mapsto> File c) = store w"
        by (auto simp: fun_upd_idem_iff)
      ultimately show ?thesis using True by simp
    next
      case False
      with src old io have "copy2 E src ?proposed (store ?w1)
          = Some ((store w)(?proposed \<mapsto> File c))"
        by (simp add: copy2_def)
      with mk ch have "copy_one E cfg src w copied
          = Returns (copied + 1)
              (?w1\<lparr>store := (store w)(?proposed \<mapsto> File c),
                    ops := ops ?w1 @ [OpCopy src ?proposed],
                    console := console ?w1 @ [Copied src ?proposed]\<rparr>)"
        by (simp add: copy_one_def Let_def)
      with True show ?thesis by simp
    qed
  next
    case False
    from fin have "finite {p. p \<in> dom (store w)}" by simp
    from first_free_returns [OF this splitext_base_no_sep [OF sx], of 1 ?d ext]
    obtain n where n: "1 \<le> n"
      and ff: "first_free (\<lambda>p. p \<in> dom (store w)) ?d base ext 1 = Some (candidate ?d base ext n)"
      and free: "candidate ?d base ext n \<notin> dom (store w)"
      and taken: "\<forall>j. 1 \<le> j \<and> j < n \<longrightarrow> candidate ?d base ext j \<in> dom (store w)"
      by blast
    let ?cand = "candidate ?d base ext n"
    from old have "?proposed \<in> dom (store w)" by (simp add: dom_def)
    with False ff have ch: "choose_dest cfg ?w1 ?d src = Some ?cand"
      by (simp add: choose_dest_def Let_def ex sx)
    from free have none: "store w ?cand = None" by (simp add: dom_def)
    from free src have ne: "src \<noteq> ?cand" by auto
    from free old have ne': "?proposed \<noteq> ?cand" by auto
    from none ne src io have "copy2 E src ?cand (store ?w1) = Some ((store w)(?cand \<mapsto> File c))"
      by (simp add: copy2_def)
    with mk ch have "copy_one E cfg src w copied
        = Returns (copied + 1)
            (?w1\<lparr>store := (store w)(?cand \<mapsto> File c),
                  ops := ops ?w1 @ [OpCopy src ?cand],
                  console := console ?w1 @ [Copied src ?cand]\<rparr>)"
      by (simp add: copy_one_def Let_def)
    with False n free taken old ne' show ?thesis by auto
  qed
qed

theorem collision_policy_witness:
  "(\<exists>w'.
      copy_one
        \<lparr>tables = Map.empty, tree_at = (\<lambda>p. Unreadable), relpath = (\<lambda>p start. p),
         copy_fails = (\<lambda>src dst. False), mkdir_fails = (\<lambda>p. False)\<rparr>
        \<lparr>destination_path = py ''d'', overwrite = False, keep_dir_structure = False,
         search_root_for_structure = Some (py ''s'')\<rparr>
        (py ''s/img.tif'')
        \<lparr>store = [py ''d'' \<mapsto> Dir, py ''d/img.tif'' \<mapsto> File (py ''old''), py ''d/img_1.tif'' \<mapsto> File (py ''x''),
                  py ''s/img.tif'' \<mapsto> File (py ''new'')],
         ops = [], console = []\<rparr> 0 = Returns 1 w' \<and>
      store w' (py ''d/img_2.tif'') = Some (File (py ''new'')) \<and>
      store w' (py ''d/img.tif'') = Some (File (py ''old''))) \<and>
   (\<exists>k w'.
      copy_one
        \<lparr>tables = Map.empty, tree_at = (\<lambda>p. Unreadable), relpath = (\<lambda>p start. p),
         copy_fails = (\<lambda>src dst. False), mkdir_fails = (\<lambda>p. False)\<rparr>
        \<lparr>destination_path = py ''d'', overwrite = True, keep_dir_structure = False,
         search_root_for_structure = Some (py ''s'')\<rparr>
        (py ''s/img.tif'')
        \<lparr>store = [py ''d'' \<mapsto> Dir, py ''d/img.tif'' \<mapsto> File (py ''old''), py ''d/img_1.tif'' \<mapsto> File (py ''x''),
                  py ''s/img.tif'' \<mapsto> File (py ''new'')],
         ops = [], console = []\<rparr> 0 = Returns k w' \<and>
      store w' (py ''d/img.tif'') = Some (File (py ''new'')))"
proof -
  let ?E = "\<lparr>tables = Map.empty, tree_at = (\<lambda>p. Unreadable), relpath = (\<lambda>p start. p),
         copy_fails = (\<lambda>src dst. False), mkdir_fails = (\<lambda>p. False)\<rparr>"
  let ?cfg = "\<lparr>destination_path = py ''d'', overwrite = False, keep_dir_structure = False,
         search_root_for_structure = Some (py ''s'')\<rparr>"
  let ?cfg' = "\<lparr>destination_path = py ''d'', overwrite = True, keep_dir_structure = False,
         search_root_for_structure = Some (py ''s'')\<rparr>"
  let ?w = "\<lparr>store = [py ''d'' \<mapsto> Dir, py ''d/img.tif'' \<mapsto> File (py ''old''), py ''d/img_1.tif'' \<mapsto> File (py ''x''),
                  py ''s/img.tif'' \<mapsto> File (py ''new'')],
         ops = [], console = []\<rparr>"
  have d: "dest_dir_of ?E ?cfg (py ''s/img.tif'') = py ''d''" "dest_dir_of ?E ?cfg' (py ''s/img.tif'') = py ''d''"
    by (simp_all add: dest_dir_of_def)
  have b: "basename (py ''s/img.tif'') = py ''img.tif''" by code_simp
  have j: "join (py ''d'') (py ''img.tif'') = py ''d/img.tif''" by code_simp
  have sx: "splitext (basename (py ''s/img.tif'')) = ((py ''img''), py ''.tif'')" by code_simp
  have c1: "candidate (py ''d'') (py ''img'') (py ''.tif'') 1 = py ''d/img_1.tif''" by code_simp
  have c2: "candidate (py ''d'') (py ''img'') (py ''.tif'') 2 = py ''d/img_2.tif''" by code_simp
  have in1: "py ''d/img_1.tif'' \<in> dom (store ?w)" by simp
  have out2: "py ''d/img_2.tif'' \<notin> dom (store ?w)" by simp
  have 1: "store ?w (dest_dir_of ?E ?cfg (py ''s/img.tif'')) = Some Dir" unfolding d by simp
  have 2: "store ?w (join (dest_dir_of ?E ?cfg (py ''s/img.tif'')) (basename (py ''s/img.tif''))) = Some (File (py ''old''))"
    unfolding d b j by simp
  have d1: "store ?w (dest_dir_of ?E ?cfg' (py ''s/img.tif'')) = Some Dir" unfolding d by simp
  have d2: "store ?w (join (dest_dir_of ?E ?cfg' (py ''s/img.tif'')) (basename (py ''s/img.tif''))) = Some (File (py ''old''))"
    unfolding d b j by simp
  have 3: "store ?w (py ''s/img.tif'') = Some (File (py ''new''))" by simp
  have 4: "\<And>dst. \<not> copy_fails ?E (py ''s/img.tif'') dst" by simp
  have 5: "finite (dom (store ?w))" by simp
  have nov: "\<not> overwrite ?cfg" and ov: "overwrite ?cfg'" by simp_all
  from collision_policy [OF 1 2 3 4 5 sx, of 0] obtain n w'
    where n: "1 \<le> n"
      and r: "copy_one ?E ?cfg (py ''s/img.tif'') ?w 0 = Returns (0 + 1) w'"
      and free: "candidate (py ''d'') (py ''img'') (py ''.tif'') n \<notin> dom (store ?w)"
      and taken: "\<forall>j. 1 \<le> j \<and> j < n \<longrightarrow> candidate (py ''d'') (py ''img'') (py ''.tif'') j \<in> dom (store ?w)"
      and st: "store w' = (store ?w)(candidate (py ''d'') (py ''img'') (py ''.tif'') n \<mapsto> File (py ''new''))"
      and keep: "store w' (join (py ''d'') (basename (py ''s/img.tif''))) = Some (File (py ''old''))"
    unfolding if_not_P [OF nov] d by blast
  have "n \<noteq> 1" using free c1 in1 by metis
  moreover have "\<not> 2 < n"
  proof
    assume "2 < n"
    with taken have "candidate (py ''d'') (py ''img'') (py ''.tif'') 2 \<in> dom (store ?w)" by simp
    with c2 out2 show False by metis
  qed
  ultimately have "n = 2" using n by simp
  with st c2 have "store w' (py ''d/img_2.tif'') = Some (File (py ''new''))" by simp
  moreover from keep have "store w' (py ''d/img.tif'') = Some (File (py ''old''))" unfolding b j .
  moreover from r have "copy_one ?E ?cfg (py ''s/img.tif'') ?w 0 = Returns 1 w'" by simp
  ultimately have A: "\<exists>w'. copy_one ?E ?cfg (py ''s/img.tif'') ?w 0 = Returns 1 w' \<and>
      store w' (py ''d/img_2.tif'') = Some (File (py ''new'')) \<and>
      store w' (py ''d/img.tif'') = Some (File (py ''old''))" by blast
  from collision_policy [OF d1 d2 3 4 5 sx, of 0] obtain k w2
    where r': "copy_one ?E ?cfg' (py ''s/img.tif'') ?w 0 = Returns k w2"
      and st': "store w2 = (store ?w)(join (py ''d'') (basename (py ''s/img.tif'')) \<mapsto> File (py ''new''))"
    unfolding if_P [OF ov] d by blast
  from st' have "store w2 (py ''d/img.tif'') = Some (File (py ''new''))" unfolding b j by simp
  with r' have B: "\<exists>k w'. copy_one ?E ?cfg' (py ''s/img.tif'') ?w 0 = Returns k w' \<and>
      store w' (py ''d/img.tif'') = Some (File (py ''new''))" by blast
  from A B show ?thesis by (rule conjI)
qed

end
